theory Spec2Isabelle
  imports Complex_Main
begin

section \<open>Vectorised gap-tooth scheme with projective integration\<close>

text \<open>
  A shallow embedding of \<^verbatim>\<open>src/Bratu/VectorizedGapToothPITimestepper.py\<close>.

  \<^item> A one-dimensional numpy array is a list, a two-dimensional one (the PatchSet
    \<^verbatim>\<open>U[k, j]\<close>) a list of rows. numpy arrays are rectangular; the predicate
    \<open>rect\<close> says so where a statement needs it.
  \<^item> The scalars are the elements of a type \<open>'a\<close> that only has to provide
    \<open>+\<close>, \<open>-\<close>, \<open>*\<close>, \<open>/\<close> and \<open>0\<close> as operations, with no law assumed about
    them: whatever the float operations compute, the structural statements hold. The
    remaining primitives (the literal \<^verbatim>\<open>2.0\<close>, \<^verbatim>\<open>dx**2\<close>, \<^verbatim>\<open>np.exp\<close>, the
    conversion of an int, \<^verbatim>\<open>int(np.round(x))\<close>) are the fields of a record. Those
    that raise on Python floats return an error or a value: \<^verbatim>\<open>dx**2\<close> raises
    \<^verbatim>\<open>OverflowError\<close> when the square is out of range, the conversion of the int
    \<open>K\<close> in \<^verbatim>\<open>K*dt\<close> raises it for an int too large for a float, and
    \<^verbatim>\<open>int(np.round(x))\<close> raises on an infinity or a nan.
    \<open>real_ops\<close> instantiates them with exact real arithmetic, where none of this
    happens.
  \<^item> Every exception of the source is a value \<open>Inl e\<close> of the result type.
  \<^item> Where a statement is about which arrays a call writes or returns, the arrays are
    objects of an explicit store and the functions are modelled over it, allocation for
    allocation and assignment for assignment.
\<close>

subsection \<open>Errors and scalar primitives\<close>

datatype error = IndexError | ValueError | KeyError | ZeroDivisionError | OverflowError | TypeError

record 'a float_ops =
  lit_two :: 'a
  sqr :: "'a \<Rightarrow> error + 'a"
  exp_f :: "'a \<Rightarrow> 'a"
  from_int :: "int \<Rightarrow> error + 'a"
  round_to_int :: "'a \<Rightarrow> error + int"

type_synonym 'a vec = "'a list"
type_synonym 'a arr2 = "'a list list"
type_synonym 'a params = "string \<Rightarrow> 'a option"

subsection \<open>numpy array primitives\<close>

text \<open>\<^verbatim>\<open>U.shape[0]\<close> and \<^verbatim>\<open>U.shape[1]\<close>.\<close>

definition n_teeth_of :: "'a arr2 \<Rightarrow> nat" where
  "n_teeth_of U = length U"

definition n_micro_of :: "'a arr2 \<Rightarrow> nat" where
  "n_micro_of U = (case U of [] \<Rightarrow> 0 | r # _ \<Rightarrow> length r)"

definition rect :: "'a arr2 \<Rightarrow> bool" where
  "rect U = list_all (\<lambda>r. length r = n_micro_of U) U"

text \<open>\<^verbatim>\<open>np.roll(r, s)\<close> on one row: the entry at \<open>j\<close> moves to \<open>(j + s) mod n\<close>.\<close>

definition roll :: "int \<Rightarrow> 'a list \<Rightarrow> 'a list" where
  "roll s r = rotate (nat ((- s) mod int (length r))) r"

text \<open>Elementwise operations on arrays of one shape, and with a scalar.\<close>

definition arr_add :: "'a::plus arr2 \<Rightarrow> 'a arr2 \<Rightarrow> 'a arr2" where
  "arr_add A B = map2 (map2 (+)) A B"

definition arr_sub :: "'a::minus arr2 \<Rightarrow> 'a arr2 \<Rightarrow> 'a arr2" where
  "arr_sub A B = map2 (map2 (-)) A B"

definition scal_mul :: "'a::times \<Rightarrow> 'a arr2 \<Rightarrow> 'a arr2" where
  "scal_mul c A = map (map ((*) c)) A"

definition arr_div_scal :: "'a::inverse arr2 \<Rightarrow> 'a \<Rightarrow> 'a arr2" where
  "arr_div_scal A c = map (map (\<lambda>a. a / c)) A"

text \<open>
  numpy broadcasting of a one-dimensional value into a target of length \<open>n\<close>: the
  lengths agree, or the value has length one and is repeated; anything else raises
  \<^verbatim>\<open>ValueError\<close>.
\<close>

definition broadcast_to :: "nat \<Rightarrow> 'a list \<Rightarrow> error + 'a list" where
  "broadcast_to n vs =
     (if length vs = n then Inr vs
      else if length vs = 1 then Inr (replicate n (hd vs))
      else Inl ValueError)"

text \<open>\<^verbatim>\<open>U[k, j] = v\<close> for indices in range.\<close>

definition set2 :: "'a arr2 \<Rightarrow> nat \<Rightarrow> nat \<Rightarrow> 'a \<Rightarrow> 'a arr2" where
  "set2 U k j v = U[k := (U ! k)[j := v]]"

text \<open>\<^verbatim>\<open>U[1:, j] = vs\<close> and \<^verbatim>\<open>U[:-1, j] = vs\<close>, one value per row of the slice.\<close>

definition set_col_tail :: "'a arr2 \<Rightarrow> nat \<Rightarrow> 'a list \<Rightarrow> 'a arr2" where
  "set_col_tail U j vs = take 1 U @ map2 (\<lambda>r v. r[j := v]) (drop 1 U) vs"

definition set_col_init :: "'a arr2 \<Rightarrow> nat \<Rightarrow> 'a list \<Rightarrow> 'a arr2" where
  "set_col_init U j vs =
     map2 (\<lambda>r v. r[j := v]) (butlast U) vs @ drop (length U - 1) U"

text \<open>\<^verbatim>\<open>U[1:, j]\<close> and \<^verbatim>\<open>U[:-1, j]\<close> read.\<close>

definition col_tail :: "'a arr2 \<Rightarrow> nat \<Rightarrow> 'a list" where
  "col_tail U j = map (\<lambda>r. r ! j) (drop 1 U)"

definition col_init :: "'a arr2 \<Rightarrow> nat \<Rightarrow> 'a list" where
  "col_init U j = map (\<lambda>r. r ! j) (butlast U)"

subsection \<open>Core building blocks\<close>

text \<open>
  \<^verbatim>\<open>rhs_vectorised\<close> (lines 37 to 42): the shift stencil along the micro axis of
  every patch and the reaction term; \<open>dx2\<close> is the value of \<^verbatim>\<open>dx**2\<close>, which is
  computed, and may raise, before \<^verbatim>\<open>params['lambda']\<close> raises \<^verbatim>\<open>KeyError\<close> on a
  dictionary without the key.
\<close>

definition rhs_row :: "'a::{plus,minus,times,inverse} float_ops \<Rightarrow> 'a \<Rightarrow> 'a \<Rightarrow> 'a list \<Rightarrow> 'a list" where
  "rhs_row ops dx2 lam r =
     (let U_left = roll (- 1) r;
          U_right = roll 1 r;
          U_xx = map (\<lambda>(l, u, rr). ((l - lit_two ops * u) + rr) / dx2)
                   (zip U_left (zip r U_right))
      in map2 (\<lambda>x u. x + lam * exp_f ops u) U_xx r)"

definition rhs_vectorised ::
  "'a::{plus,minus,times,inverse} float_ops \<Rightarrow> 'a arr2 \<Rightarrow> 'a \<Rightarrow> 'a params \<Rightarrow> error + 'a arr2" where
  "rhs_vectorised ops U dx params =
     (case sqr ops dx of
        Inl e \<Rightarrow> Inl e
      | Inr dx2 \<Rightarrow>
          (case params ''lambda'' of
             None \<Rightarrow> Inl KeyError
           | Some lam \<Rightarrow> Inr (map (rhs_row ops dx2 lam) U)))"

text \<open>
  The boundary conditions, lines 50 to 55 of \<^verbatim>\<open>euler_step\<close> and, statement for
  statement the same, lines 77 to 82 of \<^verbatim>\<open>projective_microcycle\<close>. The array is
  updated in the order of the source: the two Dirichlet values, then the left edges of
  the patches \<open>1, 2, ...\<close> from column 1, then the right edges of all patches but the
  last from column \<open>-2\<close> of the array as it is by then.
\<close>

definition enforce_bcs ::
  "'a::{plus,minus,times,zero} arr2 \<Rightarrow> 'a \<Rightarrow> 'a vec \<Rightarrow> 'a vec \<Rightarrow> error + 'a arr2" where
  "enforce_bcs U dx left_slope right_slope =
     (let n_teeth = n_teeth_of U; m = n_micro_of U in
      if n_teeth = 0 \<or> m = 0 then Inl IndexError
      else
        let U1 = set2 U 0 0 0;
            U2 = set2 U1 (n_teeth - 1) (m - 1) 0
        in if n_teeth > 1 then
             if m < 2 then Inl IndexError
             else
               (case broadcast_to (n_teeth - 1) (map (\<lambda>s. s * dx) (drop 1 left_slope)) of
                  Inl e \<Rightarrow> Inl e
                | Inr ls \<Rightarrow>
                    let U3 = set_col_tail U2 0 (map2 (-) (col_tail U2 1) ls) in
                    (case broadcast_to (n_teeth - 1) (map (\<lambda>s. s * dx) (butlast right_slope)) of
                       Inl e \<Rightarrow> Inl e
                     | Inr rs \<Rightarrow>
                         Inr (set_col_init U3 (m - 1) (map2 (+) (col_init U3 (m - 2)) rs))))
           else Inr U2)"

text \<open>\<^verbatim>\<open>euler_step\<close> (lines 45 to 56).\<close>

definition euler_step ::
  "'a::{plus,minus,times,inverse,zero} float_ops \<Rightarrow> 'a arr2 \<Rightarrow> 'a \<Rightarrow> 'a \<Rightarrow> 'a vec \<Rightarrow> 'a vec \<Rightarrow>
     'a params \<Rightarrow> error + 'a arr2" where
  "euler_step ops U dx dt left_slope right_slope params =
     (case rhs_vectorised ops U dx params of
        Inl e \<Rightarrow> Inl e
      | Inr R \<Rightarrow> enforce_bcs (arr_add U (scal_mul dt R)) dx left_slope right_slope)"

text \<open>
  \<^verbatim>\<open>projective_microcycle\<close> (lines 59 to 83). The loop
  \<^verbatim>\<open>for m in range(K-1)\<close> runs \<open>nat (K - 1)\<close> times, none for \<open>K \<le> 1\<close>.
\<close>

fun euler_loop ::
  "nat \<Rightarrow> 'a::{plus,minus,times,inverse,zero} float_ops \<Rightarrow> 'a arr2 \<Rightarrow> 'a \<Rightarrow> 'a \<Rightarrow> 'a vec \<Rightarrow> 'a vec \<Rightarrow>
     'a params \<Rightarrow> error + 'a arr2" where
  "euler_loop 0 ops U dx dt left_slope right_slope params = Inr U"
| "euler_loop (Suc n) ops U dx dt left_slope right_slope params =
     (case euler_step ops U dx dt left_slope right_slope params of
        Inl e \<Rightarrow> Inl e
      | Inr U' \<Rightarrow> euler_loop n ops U' dx dt left_slope right_slope params)"

definition projective_microcycle ::
  "'a::{plus,minus,times,inverse,zero} float_ops \<Rightarrow> 'a arr2 \<Rightarrow> 'a \<Rightarrow> 'a \<Rightarrow> 'a \<Rightarrow> int \<Rightarrow>
     'a vec \<Rightarrow> 'a vec \<Rightarrow> 'a params \<Rightarrow> error + 'a arr2" where
  "projective_microcycle ops U dx dt Dt K left_slope right_slope params =
     (case euler_loop (nat (K - 1)) ops U dx dt left_slope right_slope params of
        Inl e \<Rightarrow> Inl e
      | Inr U_prev \<Rightarrow>
          (case euler_step ops U_prev dx dt left_slope right_slope params of
             Inl e \<Rightarrow> Inl e
           | Inr U' \<Rightarrow>
               let du_dt = arr_div_scal (arr_sub U' U_prev) dt in
               (case from_int ops K of
                  Inl e \<Rightarrow> Inl e
                | Inr k \<Rightarrow>
                    let U'' = arr_add U' (scal_mul (Dt - k * dt) du_dt)
                    in enforce_bcs U'' dx left_slope right_slope)))"

subsection \<open>Conversions between the flat vector and the list of patches\<close>

text \<open>
  \<^verbatim>\<open>toPatch\<close> (lines 20 to 25). \<^verbatim>\<open>x_plot_array[0]\<close> raises \<^verbatim>\<open>IndexError\<close> on an
  empty list; a numpy slice \<^verbatim>\<open>u[a:b]\<close> is cut to the array's length.
\<close>

definition toPatch :: "'b list list \<Rightarrow> 'a list \<Rightarrow> error + 'a list list" where
  "toPatch x_plot_array u =
     (case x_plot_array of
        [] \<Rightarrow> Inl IndexError
      | x0 # _ \<Rightarrow>
          (let len = length x0 in
           Inr (map (\<lambda>i. take len (drop (i * len) u)) [0..<length x_plot_array])))"

text \<open>
  \<^verbatim>\<open>toNumpyArray\<close> (lines 27 to 32): the loop assigns patch \<open>i\<close> to the slice
  \<^verbatim>\<open>u[i*length:(i+1)*length]\<close> of a zero vector, broadcasting as numpy does.
\<close>

fun assign_patches :: "nat \<Rightarrow> nat \<Rightarrow> 'a list list \<Rightarrow> 'a list \<Rightarrow> error + 'a list" where
  "assign_patches len i [] u = Inr u"
| "assign_patches len i (p # ps) u =
     (case broadcast_to len p of
        Inl e \<Rightarrow> Inl e
      | Inr vs \<Rightarrow> assign_patches len (Suc i) ps (take (i * len) u @ vs @ drop (Suc i * len) u))"

definition toNumpyArray :: "'a::zero list list \<Rightarrow> error + 'a list" where
  "toNumpyArray u_patch =
     (case u_patch of
        [] \<Rightarrow> Inl IndexError
      | p0 # _ \<Rightarrow>
          (let len = length p0 in
           assign_patches len 0 u_patch (replicate (length u_patch * len) 0)))"

subsection \<open>Slopes from the global interpolant\<close>

text \<open>
  Modelled from the spec: the module \<^verbatim>\<open>RBF\<close> (the class \<^verbatim>\<open>RBFInterpolator\<close>) is not
  among the sources. Its contract, construct(coordinates, values) giving an interpolant
  whose derivative(x) is a scalar, is the parameter \<open>rbf\<close>: \<open>rbf x_end u_end x\<close> is
  the derivative at \<open>x\<close> of the interpolant through the end points.

  \<^verbatim>\<open>spline_slopes\<close> (lines 87 to 101) reads the two ends of every coordinate grid and of
  the rows \<open>0, ..., len(x_array) - 1\<close> of \<open>U\<close>; a missing row or an empty one
  raises \<^verbatim>\<open>IndexError\<close>.
\<close>

definition spline_slopes ::
  "('a list \<Rightarrow> 'a list \<Rightarrow> 'a \<Rightarrow> 'a) \<Rightarrow> 'a arr2 \<Rightarrow> 'a list list \<Rightarrow> error + ('a vec \<times> 'a vec)" where
  "spline_slopes rbf U x_array =
     (let n_teeth = length x_array in
      if list_ex (\<lambda>k. x_array ! k = [] \<or> length U \<le> k \<or> n_micro_of U = 0) [0..<n_teeth]
      then Inl IndexError
      else
        let x_end = concat (map (\<lambda>k. [hd (x_array ! k), last (x_array ! k)]) [0..<n_teeth]);
            u_end = concat (map (\<lambda>k. [hd (U ! k), last (U ! k)]) [0..<n_teeth]);
            left = map (\<lambda>k. rbf x_end u_end (hd (x_array ! k))) [0..<n_teeth];
            right = map (\<lambda>k. rbf x_end u_end (last (x_array ! k))) [0..<n_teeth]
        in Inr (left, right))"

subsection \<open>The public driver\<close>

text \<open>
  \<^verbatim>\<open>np.stack(u0_patch, axis=0)\<close> raises \<^verbatim>\<open>ValueError\<close> on an empty list and on
  patches of different lengths. The quotients \<^verbatim>\<open>T / T_patch\<close> and \<^verbatim>\<open>T_patch / Dt\<close>
  are divisions of Python floats, which raise \<^verbatim>\<open>ZeroDivisionError\<close> on a zero divisor.
\<close>

definition stack :: "'a list list \<Rightarrow> error + 'a arr2" where
  "stack u0_patch =
     (if u0_patch = [] \<or> \<not> list_all (\<lambda>p. length p = length (hd u0_patch)) u0_patch
      then Inl ValueError else Inr u0_patch)"

definition py_div :: "'a::{inverse,zero} \<Rightarrow> 'a \<Rightarrow> error + 'a" where
  "py_div x y = (if y = 0 then Inl ZeroDivisionError else Inr (x / y))"

definition step_count :: "'a::{inverse,zero} float_ops \<Rightarrow> 'a \<Rightarrow> 'a \<Rightarrow> error + int" where
  "step_count ops x y =
     (case py_div x y of Inl e \<Rightarrow> Inl e | Inr q \<Rightarrow> round_to_int ops q)"

text \<open>
  The two loops of \<^verbatim>\<open>gaptooth_PI_vectorised\<close> (lines 130 to 140). Beside the state
  they return the calls they made, in order: a ghost log that the source does not
  keep, through which the statements about the calls are made.
\<close>

datatype 'a call = SlopesCall "'a arr2" | CycleCall "'a arr2" "'a vec" "'a vec"

fun pi_loop ::
  "nat \<Rightarrow> 'a::{plus,minus,times,inverse,zero} float_ops \<Rightarrow> 'a arr2 \<Rightarrow> 'a \<Rightarrow> 'a \<Rightarrow> 'a \<Rightarrow> int \<Rightarrow>
     'a vec \<Rightarrow> 'a vec \<Rightarrow> 'a params \<Rightarrow> 'a call list \<times> (error + 'a arr2)" where
  "pi_loop 0 ops U dx dt Dt K left_slope right_slope params = ([], Inr U)"
| "pi_loop (Suc i) ops U dx dt Dt K left_slope right_slope params =
     (case projective_microcycle ops U dx dt Dt K left_slope right_slope params of
        Inl e \<Rightarrow> ([CycleCall U left_slope right_slope], Inl e)
      | Inr U' \<Rightarrow>
          (case pi_loop i ops U' dx dt Dt K left_slope right_slope params of
             (calls, r) \<Rightarrow> (CycleCall U left_slope right_slope # calls, r)))"

fun patch_loop ::
  "nat \<Rightarrow> nat \<Rightarrow> ('a list \<Rightarrow> 'a list \<Rightarrow> 'a \<Rightarrow> 'a) \<Rightarrow>
     'a::{plus,minus,times,inverse,zero} float_ops \<Rightarrow> 'a arr2 \<Rightarrow> 'a list list \<Rightarrow>
     'a \<Rightarrow> 'a \<Rightarrow> 'a \<Rightarrow> int \<Rightarrow> 'a params \<Rightarrow> 'a call list \<times> (error + 'a arr2)" where
  "patch_loop 0 n_PI_steps rbf ops U x_array dx dt Dt K params = ([], Inr U)"
| "patch_loop (Suc p) n_PI_steps rbf ops U x_array dx dt Dt K params =
     (case spline_slopes rbf U x_array of
        Inl e \<Rightarrow> ([SlopesCall U], Inl e)
      | Inr (left_slope, right_slope) \<Rightarrow>
          (case pi_loop n_PI_steps ops U dx dt Dt K left_slope right_slope params of
             (calls1, Inl e) \<Rightarrow> (SlopesCall U # calls1, Inl e)
           | (calls1, Inr U') \<Rightarrow>
               (case patch_loop p n_PI_steps rbf ops U' x_array dx dt Dt K params of
                  (calls2, r) \<Rightarrow> (SlopesCall U # calls1 @ calls2, r))))"

text \<open>
  \<^verbatim>\<open>gaptooth_PI_vectorised\<close> (lines 105 to 143), with the log of its calls.
  \<^verbatim>\<open>range(1, n_patch_steps+1)\<close> and \<^verbatim>\<open>range(n_PI_steps)\<close> are empty for counts
  below one. The printing under \<^verbatim>\<open>verbose\<close> is not modelled.
\<close>

definition gaptooth_PI_logged ::
  "('a list \<Rightarrow> 'a list \<Rightarrow> 'a \<Rightarrow> 'a) \<Rightarrow> 'a::{plus,minus,times,inverse,zero} float_ops \<Rightarrow>
     'a list list \<Rightarrow> 'a list list \<Rightarrow> 'a \<Rightarrow> 'a \<Rightarrow> 'a \<Rightarrow> int \<Rightarrow> 'a \<Rightarrow> 'a \<Rightarrow> 'a params \<Rightarrow>
     'a call list \<times> (error + 'a list list)" where
  "gaptooth_PI_logged rbf ops u0_patch x_array dx dt Dt K T_patch T params =
     (case stack u0_patch of
        Inl e \<Rightarrow> ([], Inl e)
      | Inr U \<Rightarrow>
          (let n_teeth = n_teeth_of U in
           case step_count ops T T_patch of
             Inl e \<Rightarrow> ([], Inl e)
           | Inr n_patch_steps \<Rightarrow>
               (case step_count ops T_patch Dt of
                  Inl e \<Rightarrow> ([], Inl e)
                | Inr n_PI_steps \<Rightarrow>
                    (case patch_loop (nat n_patch_steps) (nat n_PI_steps) rbf ops U x_array
                            dx dt Dt K params of
                       (calls, Inl e) \<Rightarrow> (calls, Inl e)
                     | (calls, Inr U') \<Rightarrow> (calls, Inr (map (\<lambda>k. U' ! k) [0..<n_teeth]))))))"

definition gaptooth_PI_vectorised ::
  "('a list \<Rightarrow> 'a list \<Rightarrow> 'a \<Rightarrow> 'a) \<Rightarrow> 'a::{plus,minus,times,inverse,zero} float_ops \<Rightarrow>
     'a list list \<Rightarrow> 'a list list \<Rightarrow> 'a \<Rightarrow> 'a \<Rightarrow> 'a \<Rightarrow> int \<Rightarrow> 'a \<Rightarrow> 'a \<Rightarrow> 'a params \<Rightarrow>
     error + 'a list list" where
  "gaptooth_PI_vectorised rbf ops u0_patch x_array dx dt Dt K T_patch T params =
     snd (gaptooth_PI_logged rbf ops u0_patch x_array dx dt Dt K T_patch T params)"

subsection \<open>The residual map and its call counter\<close>

text \<open>
  \<^verbatim>\<open>eval_counter\<close> (lines 145 to 153) keeps the closure variable \<^verbatim>\<open>count\<close> and
  publishes it as the attribute \<^verbatim>\<open>wrapper.count\<close>. The wrapper increments before it
  calls the function, so the counter moves also when the call raises.
\<close>

record counter =
  count :: int
  wrapper_count :: int

definition eval_counter :: "counter" where
  "eval_counter = \<lparr> count = 0, wrapper_count = 0 \<rparr>"

definition wrapper :: "counter \<Rightarrow> 'r \<Rightarrow> counter \<times> 'r" where
  "wrapper c r = (c\<lparr> count := count c + 1, wrapper_count := count c + 1 \<rparr>, r)"

text \<open>\<^verbatim>\<open>u0_numpy - v\<close> on one-dimensional arrays, with numpy's broadcasting.\<close>

definition vec_sub :: "'a::minus list \<Rightarrow> 'a list \<Rightarrow> error + 'a list" where
  "vec_sub a b =
     (if length a = length b then Inr (map2 (-) a b)
      else if length b = 1 then Inr (map (\<lambda>x. x - hd b) a)
      else if length a = 1 then Inr (map (\<lambda>y. hd a - y) b)
      else Inl ValueError)"

text \<open>\<^verbatim>\<open>psiPatch\<close> (lines 156 to 163), the body and the decorated function.\<close>

definition psiPatch_body ::
  "('a list \<Rightarrow> 'a list \<Rightarrow> 'a \<Rightarrow> 'a) \<Rightarrow> 'a::{plus,minus,times,inverse,zero} float_ops \<Rightarrow>
     'a list \<Rightarrow> 'a list list \<Rightarrow> 'a \<Rightarrow> 'a \<Rightarrow> 'a \<Rightarrow> int \<Rightarrow> 'a \<Rightarrow> 'a \<Rightarrow> 'a params \<Rightarrow>
     error + 'a list" where
  "psiPatch_body rbf ops u0_numpy x_plot_array dx dt Dt K T_patch T_psi params =
     (case toPatch x_plot_array u0_numpy of
        Inl e \<Rightarrow> Inl e
      | Inr u0_patch \<Rightarrow>
          (case gaptooth_PI_vectorised rbf ops u0_patch x_plot_array dx dt Dt K T_patch T_psi
                  params of
             Inl e \<Rightarrow> Inl e
           | Inr u_new_patch \<Rightarrow>
               (case toNumpyArray u_new_patch of
                  Inl e \<Rightarrow> Inl e
                | Inr v \<Rightarrow> vec_sub u0_numpy v)))"

definition psiPatch ::
  "counter \<Rightarrow> ('a list \<Rightarrow> 'a list \<Rightarrow> 'a \<Rightarrow> 'a) \<Rightarrow> 'a::{plus,minus,times,inverse,zero} float_ops \<Rightarrow>
     'a list \<Rightarrow> 'a list list \<Rightarrow> 'a \<Rightarrow> 'a \<Rightarrow> 'a \<Rightarrow> int \<Rightarrow> 'a \<Rightarrow> 'a \<Rightarrow> 'a params \<Rightarrow>
     counter \<times> (error + 'a list)" where
  "psiPatch c rbf ops u0_numpy x_plot_array dx dt Dt K T_patch T_psi params =
     wrapper c (psiPatch_body rbf ops u0_numpy x_plot_array dx dt Dt K T_patch T_psi params)"

subsection \<open>Exact arithmetic\<close>

text \<open>
  Exact real arithmetic for the scalar primitives; rounding is to the nearest integer,
  ties to the even one, as \<^verbatim>\<open>np.round\<close> does. The primitives that raise on Python
  floats raise here when the exact value is outside the range of the doubles, that is
  from the magnitude \<open>2^1024 - 2^970\<close> on, where rounding to the nearest double gives
  an infinity: \<^verbatim>\<open>dx**2\<close> and the conversion of an int to a float raise
  \<^verbatim>\<open>OverflowError\<close> there, and so does \<^verbatim>\<open>int(np.round(x))\<close> on the infinity that
  an overflowed quotient \<open>x\<close> is.
\<close>

definition float_bound :: real where
  "float_bound = 2 ^ 1024 - 2 ^ 970"

definition checked :: "real \<Rightarrow> error + real" where
  "checked x = (if \<bar>x\<bar> < float_bound then Inr x else Inl OverflowError)"

definition round_half_even :: "real \<Rightarrow> int" where
  "round_half_even x =
     (let f = \<lfloor>x\<rfloor>; d = x - of_int f in
      if d < 1 / 2 then f
      else if d > 1 / 2 then f + 1
      else if even f then f else f + 1)"

definition real_ops :: "real float_ops" where
  "real_ops = \<lparr> lit_two = 2, sqr = (\<lambda>x. checked (x * x)), exp_f = exp,
                from_int = (\<lambda>k. checked (of_int k)),
                round_to_int = (\<lambda>x. case checked x of
                                     Inl e \<Rightarrow> Inl e
                                   | Inr y \<Rightarrow> Inr (round_half_even y)) \<rparr>"

subsection \<open>Shapes and the stages of the boundary conditions\<close>

text \<open>An array of \<open>n\<close> rows of length \<open>m\<close>.\<close>

definition shape :: "'a arr2 \<Rightarrow> nat \<Rightarrow> nat \<Rightarrow> bool" where
  "shape U n m = (length U = n \<and> (\<forall>k<n. length (U ! k) = m))"

text \<open>The array after the two Dirichlet assignments, after the assignment of the left
  edges, and after the assignment of the right edges.\<close>

definition dirichlet :: "'a::zero arr2 \<Rightarrow> 'a arr2" where
  "dirichlet U = set2 (set2 U 0 0 0) (n_teeth_of U - 1) (n_micro_of U - 1) 0"

definition neumann_left :: "'a::minus arr2 \<Rightarrow> 'a list \<Rightarrow> 'a arr2" where
  "neumann_left U lsb = set_col_tail U 0 (map2 (-) (col_tail U 1) lsb)"

definition neumann_right :: "'a::plus arr2 \<Rightarrow> 'a list \<Rightarrow> 'a arr2" where
  "neumann_right U rsb =
     set_col_init U (n_micro_of U - 1) (map2 (+) (col_init U (n_micro_of U - 2)) rsb)"

subsection \<open>The arrays as objects of a store\<close>

text \<open>
  For the statements about aliasing the functions are modelled once more over an explicit
  store: an array is an object at an address, a Python name holds an address, every
  expression that builds an array allocates a fresh address, and an indexed assignment
  \<^verbatim>\<open>U[...] = v\<close> updates the object at the address that \<open>U\<close> holds. The arrays that
  are only read (the coordinate grids, the slopes) stay values, and the unnamed
  temporaries of an expression get no address.
\<close>

type_synonym addr = nat

datatype 'a ndarray = Arr1 "'a list" | Arr2 "'a list list"

record 'a heap =
  objs :: "addr \<Rightarrow> 'a ndarray option"
  next_addr :: addr

definition h_alloc :: "'a heap \<Rightarrow> 'a ndarray \<Rightarrow> 'a heap \<times> addr" where
  "h_alloc h ob =
     (h\<lparr> objs := (objs h)(next_addr h \<mapsto> ob), next_addr := Suc (next_addr h) \<rparr>, next_addr h)"

definition h_put :: "'a heap \<Rightarrow> addr \<Rightarrow> 'a ndarray \<Rightarrow> 'a heap" where
  "h_put h r ob = h\<lparr> objs := (objs h)(r \<mapsto> ob) \<rparr>"

definition h_get1 :: "'a heap \<Rightarrow> addr \<Rightarrow> error + 'a list" where
  "h_get1 h r = (case objs h r of Some (Arr1 v) \<Rightarrow> Inr v | _ \<Rightarrow> Inl TypeError)"

definition h_get2 :: "'a heap \<Rightarrow> addr \<Rightarrow> error + 'a arr2" where
  "h_get2 h r = (case objs h r of Some (Arr2 U) \<Rightarrow> Inr U | _ \<Rightarrow> Inl TypeError)"

text \<open>Sequencing: an exception ends the computation in the store reached so far.\<close>

definition h_then ::
  "'h \<times> (error + 'b) \<Rightarrow> ('h \<Rightarrow> 'b \<Rightarrow> 'h \<times> (error + 'c)) \<Rightarrow> 'h \<times> (error + 'c)" where
  "h_then m f = (case m of (h, Inl e) \<Rightarrow> (h, Inl e) | (h, Inr x) \<Rightarrow> f h x)"

definition h_read :: "'h \<Rightarrow> error + 'b \<Rightarrow> ('b \<Rightarrow> 'h \<times> (error + 'c)) \<Rightarrow> 'h \<times> (error + 'c)" where
  "h_read h v f = (case v of Inl e \<Rightarrow> (h, Inl e) | Inr x \<Rightarrow> f x)"

text \<open>The four assignments of the boundary conditions, in place on the array at \<open>r\<close>.\<close>

definition h_enforce_bcs ::
  "'a::{plus,minus,times,zero} heap \<Rightarrow> addr \<Rightarrow> 'a \<Rightarrow> 'a vec \<Rightarrow> 'a vec \<Rightarrow>
     'a heap \<times> (error + unit)" where
  "h_enforce_bcs h r dx left_slope right_slope =
     (case h_get2 h r of
        Inl e \<Rightarrow> (h, Inl e)
      | Inr U \<Rightarrow>
          (let n_teeth = n_teeth_of U; m = n_micro_of U in
           if n_teeth = 0 \<or> m = 0 then (h, Inl IndexError)
           else
             let U1 = set2 U 0 0 0;
                 h1 = h_put h r (Arr2 U1);
                 U2 = set2 U1 (n_teeth - 1) (m - 1) 0;
                 h2 = h_put h1 r (Arr2 U2)
             in if n_teeth > 1 then
                  if m < 2 then (h2, Inl IndexError)
                  else
                    (case broadcast_to (n_teeth - 1) (map (\<lambda>s. s * dx) (drop 1 left_slope)) of
                       Inl e \<Rightarrow> (h2, Inl e)
                     | Inr ls \<Rightarrow>
                         let U3 = set_col_tail U2 0 (map2 (-) (col_tail U2 1) ls);
                             h3 = h_put h2 r (Arr2 U3)
                         in (case broadcast_to (n_teeth - 1)
                                    (map (\<lambda>s. s * dx) (butlast right_slope)) of
                               Inl e \<Rightarrow> (h3, Inl e)
                             | Inr rs \<Rightarrow>
                                 (h_put h3 r
                                    (Arr2 (set_col_init U3 (m - 1)
                                       (map2 (+) (col_init U3 (m - 2)) rs))),
                                  Inr ())))
                else (h2, Inr ())))"

text \<open>\<^verbatim>\<open>euler_step\<close>: \<^verbatim>\<open>U_new = U + dt * rhs\<close> is a new array, updated in place.\<close>

definition h_euler_step ::
  "'a::{plus,minus,times,inverse,zero} float_ops \<Rightarrow> 'a heap \<Rightarrow> addr \<Rightarrow> 'a \<Rightarrow> 'a \<Rightarrow>
     'a vec \<Rightarrow> 'a vec \<Rightarrow> 'a params \<Rightarrow> 'a heap \<times> (error + addr)" where
  "h_euler_step ops h r dx dt left_slope right_slope params =
     h_read h (h_get2 h r) (\<lambda>U.
     h_read h (rhs_vectorised ops U dx params) (\<lambda>R.
     case h_alloc h (Arr2 (arr_add U (scal_mul dt R))) of (h1, U_new) \<Rightarrow>
     h_then (h_enforce_bcs h1 U_new dx left_slope right_slope) (\<lambda>h2 _. (h2, Inr U_new))))"

fun h_euler_loop ::
  "nat \<Rightarrow> 'a::{plus,minus,times,inverse,zero} float_ops \<Rightarrow> 'a heap \<Rightarrow> addr \<Rightarrow> 'a \<Rightarrow> 'a \<Rightarrow>
     'a vec \<Rightarrow> 'a vec \<Rightarrow> 'a params \<Rightarrow> 'a heap \<times> (error + addr)" where
  "h_euler_loop 0 ops h r dx dt left_slope right_slope params = (h, Inr r)"
| "h_euler_loop (Suc n) ops h r dx dt left_slope right_slope params =
     h_then (h_euler_step ops h r dx dt left_slope right_slope params) (\<lambda>h1 r1.
       h_euler_loop n ops h1 r1 dx dt left_slope right_slope params)"

text \<open>
  \<^verbatim>\<open>projective_microcycle\<close>: \<^verbatim>\<open>U.copy()\<close>, \<^verbatim>\<open>(U - U_prev) / dt\<close> and
  \<^verbatim>\<open>U + (Dt - K*dt) * du_dt\<close> are new arrays; the boundary conditions update the last.
\<close>

definition h_projective_microcycle ::
  "'a::{plus,minus,times,inverse,zero} float_ops \<Rightarrow> 'a heap \<Rightarrow> addr \<Rightarrow> 'a \<Rightarrow> 'a \<Rightarrow> 'a \<Rightarrow> int \<Rightarrow>
     'a vec \<Rightarrow> 'a vec \<Rightarrow> 'a params \<Rightarrow> 'a heap \<times> (error + addr)" where
  "h_projective_microcycle ops h r dx dt Dt K left_slope right_slope params =
     h_then (h_euler_loop (nat (K - 1)) ops h r dx dt left_slope right_slope params) (\<lambda>h1 r1.
     h_read h1 (h_get2 h1 r1) (\<lambda>U.
     case h_alloc h1 (Arr2 U) of (h2, U_prev) \<Rightarrow>
     h_then (h_euler_step ops h2 r1 dx dt left_slope right_slope params) (\<lambda>h3 r2.
     h_read h3 (h_get2 h3 r2) (\<lambda>U'.
     h_read h3 (h_get2 h3 U_prev) (\<lambda>Up.
     case h_alloc h3 (Arr2 (arr_div_scal (arr_sub U' Up) dt)) of (h4, du_dt) \<Rightarrow>
     h_read h4 (h_get2 h4 du_dt) (\<lambda>D.
     h_read h4 (from_int ops K) (\<lambda>k.
     case h_alloc h4 (Arr2 (arr_add U' (scal_mul (Dt - k * dt) D))) of (h5, r3) \<Rightarrow>
     h_then (h_enforce_bcs h5 r3 dx left_slope right_slope) (\<lambda>h6 _. (h6, Inr r3)))))))))"

text \<open>
  The loops of the driver. \<^verbatim>\<open>spline_slopes\<close> reads \<^verbatim>\<open>U[k,0]\<close> and \<^verbatim>\<open>U[k,-1]\<close> into
  arrays of its own and hands these to the interpolant, so the slopes are computed from
  the contents of the array that \<open>U\<close> holds and nothing is written to it.
\<close>

fun h_pi_loop ::
  "nat \<Rightarrow> 'a::{plus,minus,times,inverse,zero} float_ops \<Rightarrow> 'a heap \<Rightarrow> addr \<Rightarrow> 'a \<Rightarrow> 'a \<Rightarrow> 'a \<Rightarrow>
     int \<Rightarrow> 'a vec \<Rightarrow> 'a vec \<Rightarrow> 'a params \<Rightarrow> 'a heap \<times> (error + addr)" where
  "h_pi_loop 0 ops h r dx dt Dt K left_slope right_slope params = (h, Inr r)"
| "h_pi_loop (Suc i) ops h r dx dt Dt K left_slope right_slope params =
     h_then (h_projective_microcycle ops h r dx dt Dt K left_slope right_slope params) (\<lambda>h1 r1.
       h_pi_loop i ops h1 r1 dx dt Dt K left_slope right_slope params)"

fun h_patch_loop ::
  "nat \<Rightarrow> nat \<Rightarrow> ('a list \<Rightarrow> 'a list \<Rightarrow> 'a \<Rightarrow> 'a) \<Rightarrow>
     'a::{plus,minus,times,inverse,zero} float_ops \<Rightarrow> 'a heap \<Rightarrow> addr \<Rightarrow> 'a list list \<Rightarrow>
     'a \<Rightarrow> 'a \<Rightarrow> 'a \<Rightarrow> int \<Rightarrow> 'a params \<Rightarrow> 'a heap \<times> (error + addr)" where
  "h_patch_loop 0 n_PI_steps rbf ops h r x_array dx dt Dt K params = (h, Inr r)"
| "h_patch_loop (Suc p) n_PI_steps rbf ops h r x_array dx dt Dt K params =
     h_read h (h_get2 h r) (\<lambda>U.
     h_read h (spline_slopes rbf U x_array) (\<lambda>(left_slope, right_slope).
     h_then (h_pi_loop n_PI_steps ops h r dx dt Dt K left_slope right_slope params) (\<lambda>h1 r1.
       h_patch_loop p n_PI_steps rbf ops h1 r1 x_array dx dt Dt K params)))"

text \<open>\<^verbatim>\<open>np.stack\<close> reads the caller's arrays and builds a new one.\<close>

fun h_get1_all :: "'a heap \<Rightarrow> addr list \<Rightarrow> error + 'a list list" where
  "h_get1_all h [] = Inr []"
| "h_get1_all h (r # rs) =
     (case h_get1 h r of
        Inl e \<Rightarrow> Inl e
      | Inr v \<Rightarrow> (case h_get1_all h rs of Inl e \<Rightarrow> Inl e | Inr vs \<Rightarrow> Inr (v # vs)))"

definition h_stack :: "'a heap \<Rightarrow> addr list \<Rightarrow> 'a heap \<times> (error + addr)" where
  "h_stack h u0_patch =
     h_read h (h_get1_all h u0_patch) (\<lambda>vs.
     h_read h (stack vs) (\<lambda>U.
     case h_alloc h (Arr2 U) of (h1, r) \<Rightarrow> (h1, Inr r)))"

text \<open>\<^verbatim>\<open>[U[k].copy() for k in range(n_teeth)]\<close>: every row is copied to a new array.\<close>

fun h_copy_rows :: "'a heap \<Rightarrow> addr \<Rightarrow> nat list \<Rightarrow> 'a heap \<times> (error + addr list)" where
  "h_copy_rows h r [] = (h, Inr [])"
| "h_copy_rows h r (k # ks) =
     h_read h (h_get2 h r) (\<lambda>U.
     if length U \<le> k then (h, Inl IndexError)
     else case h_alloc h (Arr1 (U ! k)) of (h1, c) \<Rightarrow>
       h_then (h_copy_rows h1 r ks) (\<lambda>h2 cs. (h2, Inr (c # cs))))"

text \<open>
  \<^verbatim>\<open>gaptooth_PI_vectorised\<close> up to its last statement, giving the address that \<open>U\<close>
  holds at the end and \<open>n_teeth\<close>, and the whole function.
\<close>

definition h_gaptooth_state ::
  "('a list \<Rightarrow> 'a list \<Rightarrow> 'a \<Rightarrow> 'a) \<Rightarrow> 'a::{plus,minus,times,inverse,zero} float_ops \<Rightarrow>
     'a heap \<Rightarrow> addr list \<Rightarrow> 'a list list \<Rightarrow> 'a \<Rightarrow> 'a \<Rightarrow> 'a \<Rightarrow> int \<Rightarrow> 'a \<Rightarrow> 'a \<Rightarrow>
     'a params \<Rightarrow> 'a heap \<times> (error + addr \<times> nat)" where
  "h_gaptooth_state rbf ops h u0_patch x_array dx dt Dt K T_patch T params =
     h_then (h_stack h u0_patch) (\<lambda>h1 r.
     h_read h1 (h_get2 h1 r) (\<lambda>U.
     h_read h1 (step_count ops T T_patch) (\<lambda>n_patch_steps.
     h_read h1 (step_count ops T_patch Dt) (\<lambda>n_PI_steps.
     h_then (h_patch_loop (nat n_patch_steps) (nat n_PI_steps) rbf ops h1 r x_array
               dx dt Dt K params) (\<lambda>h2 r'. (h2, Inr (r', n_teeth_of U)))))))"

definition h_gaptooth_PI_vectorised ::
  "('a list \<Rightarrow> 'a list \<Rightarrow> 'a \<Rightarrow> 'a) \<Rightarrow> 'a::{plus,minus,times,inverse,zero} float_ops \<Rightarrow>
     'a heap \<Rightarrow> addr list \<Rightarrow> 'a list list \<Rightarrow> 'a \<Rightarrow> 'a \<Rightarrow> 'a \<Rightarrow> int \<Rightarrow> 'a \<Rightarrow> 'a \<Rightarrow>
     'a params \<Rightarrow> 'a heap \<times> (error + addr list)" where
  "h_gaptooth_PI_vectorised rbf ops h u0_patch x_array dx dt Dt K T_patch T params =
     h_then (h_gaptooth_state rbf ops h u0_patch x_array dx dt Dt K T_patch T params)
       (\<lambda>h1 (r, n_teeth). h_copy_rows h1 r [0..<n_teeth])"

section \<open>Properties\<close>

subsection \<open>The exact primitives on small values\<close>

lemma float_bound_large: "1000000 < float_bound"
  by (simp add: float_bound_def)

lemma checked_small: "\<bar>x\<bar> \<le> 1000000 \<Longrightarrow> checked x = Inr x"
  using float_bound_large by (simp add: checked_def)

lemma real_ops_simps:
  "lit_two real_ops = 2"
  "exp_f real_ops = exp"
  "\<bar>x * x\<bar> \<le> 1000000 \<Longrightarrow> sqr real_ops x = Inr (x * x)"
  "\<bar>real_of_int k\<bar> \<le> 1000000 \<Longrightarrow> from_int real_ops k = Inr (real_of_int k)"
  "\<bar>x\<bar> \<le> 1000000 \<Longrightarrow> round_to_int real_ops x = Inr (round_half_even x)"
  by (simp_all add: real_ops_def checked_small)

subsection \<open>Array primitives and shapes\<close>

lemma length_set2 [simp]: "length (set2 U k j v) = length U"
  by (simp add: set2_def)

lemma nth_set2:
  "k' < length U \<Longrightarrow> set2 U k j v ! k' = (if k' = k then (U ! k)[j := v] else U ! k')"
  by (simp add: set2_def)

lemma length_set_col_tail:
  "length vs = length U - 1 \<Longrightarrow> length (set_col_tail U j vs) = length U"
  by (cases U) (simp_all add: set_col_tail_def)

lemma nth_set_col_tail:
  "length vs = length U - 1 \<Longrightarrow> k < length U \<Longrightarrow>
   set_col_tail U j vs ! k = (if k = 0 then U ! 0 else (U ! k)[j := vs ! (k - 1)])"
  by (cases U) (auto simp add: set_col_tail_def nth_append nth_Cons')

lemma length_set_col_init:
  "length vs = length U - 1 \<Longrightarrow> length (set_col_init U j vs) = length U"
  by (cases U rule: rev_cases) (simp_all add: set_col_init_def)

lemma nth_set_col_init:
  "length vs = length U - 1 \<Longrightarrow> k < length U \<Longrightarrow>
   set_col_init U j vs ! k = (if k = length U - 1 then U ! k else (U ! k)[j := vs ! k])"
  by (cases U rule: rev_cases) (auto simp add: set_col_init_def nth_append)

lemma broadcast_to_length: "broadcast_to n vs = Inr ws \<Longrightarrow> length ws = n"
  by (auto simp: broadcast_to_def split: if_splits)

lemma length_col_tail [simp]: "length (col_tail U j) = length U - 1"
  by (simp add: col_tail_def)

lemma length_col_init [simp]: "length (col_init U j) = length U - 1"
  by (simp add: col_init_def)

lemma rect_shape: "rect U \<Longrightarrow> shape U (length U) (n_micro_of U)"
  by (auto simp: rect_def shape_def list_all_length)

lemma shape_n_micro: "shape U n m \<Longrightarrow> 0 < n \<Longrightarrow> n_micro_of U = m"
  by (cases U) (auto simp: shape_def n_micro_of_def)

lemma shape_rect: "shape U n m \<Longrightarrow> rect U"
  by (cases U) (auto simp: rect_def shape_def list_all_length n_micro_of_def)

lemma shape_set2: "shape U n m \<Longrightarrow> shape (set2 U k j v) n m"
  by (cases "k < n") (auto simp: shape_def set2_def nth_list_update)

lemma shape_set_col_tail:
  "shape U n m \<Longrightarrow> length vs = n - 1 \<Longrightarrow> shape (set_col_tail U j vs) n m"
  by (auto simp: shape_def length_set_col_tail nth_set_col_tail)

lemma shape_set_col_init:
  "shape U n m \<Longrightarrow> length vs = n - 1 \<Longrightarrow> shape (set_col_init U j vs) n m"
  by (auto simp: shape_def length_set_col_init nth_set_col_init)

lemma shape_dirichlet: "shape U n m \<Longrightarrow> shape (dirichlet U) n m"
  by (simp add: dirichlet_def shape_set2)

lemma nth_dirichlet:
  assumes "shape U n m" "k < n" "j < m"
  shows "dirichlet U ! k ! j =
           (if (k = 0 \<and> j = 0) \<or> (k = n - 1 \<and> j = m - 1) then 0 else U ! k ! j)"
proof -
  have n: "length U = n" and r: "\<And>i. i < n \<Longrightarrow> length (U ! i) = m"
    using assms(1) by (auto simp: shape_def)
  have m: "n_micro_of U = m" using shape_n_micro[OF assms(1)] assms(2) by simp
  have m0: "0 < m" using assms(3) by simp
  show ?thesis
    using assms(2,3) r[of k] r[of 0] r[of "n - 1"] m0
    by (auto simp: dirichlet_def n_teeth_of_def n m nth_set2 nth_list_update)
qed

lemma enforce_bcs_single:
  assumes "length U = 1" "enforce_bcs U dx ls rs = Inr U'"
  shows "U' = dirichlet U" "0 < n_micro_of U"
  using assms by (auto simp: enforce_bcs_def dirichlet_def Let_def n_teeth_of_def split: if_splits)

lemma enforce_bcs_multi:
  assumes "1 < length U" "enforce_bcs U dx ls rs = Inr U'"
  obtains lsb rsb where
    "2 \<le> n_micro_of U"
    "broadcast_to (length U - 1) (map (\<lambda>s. s * dx) (drop 1 ls)) = Inr lsb"
    "broadcast_to (length U - 1) (map (\<lambda>s. s * dx) (butlast rs)) = Inr rsb"
    "U' = set_col_init
            (set_col_tail (dirichlet U) 0 (map2 (-) (col_tail (dirichlet U) 1) lsb))
            (n_micro_of U - 1)
            (map2 (+)
               (col_init
                  (set_col_tail (dirichlet U) 0 (map2 (-) (col_tail (dirichlet U) 1) lsb))
                  (n_micro_of U - 2)) rsb)"
  using assms
  by (auto simp: enforce_bcs_def dirichlet_def Let_def n_teeth_of_def
      split: if_splits sum.splits)

lemma enforce_bcs_shape:
  assumes "shape U n m" "enforce_bcs U dx ls rs = Inr U'"
  shows "shape U' n m"
proof -
  have len: "length U = n" using assms(1) by (simp add: shape_def)
  from assms(2) have n0: "0 < n"
    by (auto simp: enforce_bcs_def Let_def n_teeth_of_def len split: if_splits)
  have d: "shape (dirichlet U) n m" by (rule shape_dirichlet[OF assms(1)])
  show ?thesis
  proof (cases "n = 1")
    case True
    then show ?thesis using enforce_bcs_single(1)[OF _ assms(2)] len d
      by simp
  next
    case False
    then have "1 < length U" using n0 len by simp
    from enforce_bcs_multi[OF this assms(2)] obtain lsb rsb where
      l: "broadcast_to (length U - 1) (map (\<lambda>s. s * dx) (drop 1 ls)) = Inr lsb" and
      r: "broadcast_to (length U - 1) (map (\<lambda>s. s * dx) (butlast rs)) = Inr rsb" and
      U': "U' = set_col_init
            (set_col_tail (dirichlet U) 0 (map2 (-) (col_tail (dirichlet U) 1) lsb))
            (n_micro_of U - 1)
            (map2 (+)
               (col_init
                  (set_col_tail (dirichlet U) 0 (map2 (-) (col_tail (dirichlet U) 1) lsb))
                  (n_micro_of U - 2)) rsb)"
      by blast
    define T where "T = set_col_tail (dirichlet U) 0 (map2 (-) (col_tail (dirichlet U) 1) lsb)"
    have ll: "length lsb = n - 1" and lr: "length rsb = n - 1"
      using broadcast_to_length[OF l] broadcast_to_length[OF r] len by simp_all
    have ld: "length (dirichlet U) = n" using d by (simp add: shape_def)
    have t: "shape T n m"
      unfolding T_def by (rule shape_set_col_tail[OF d]) (simp add: ll ld)
    have lt: "length T = n"
      using t by (simp add: shape_def)
    have "shape (set_col_init T (n_micro_of U - 1) (map2 (+) (col_init T (n_micro_of U - 2)) rsb)) n m"
      by (rule shape_set_col_init[OF t]) (simp add: lr lt)
    then show ?thesis unfolding U' T_def .
  qed
qed

lemma shape_neumann_left:
  "shape U n m \<Longrightarrow> length lsb = n - 1 \<Longrightarrow> shape (neumann_left U lsb) n m"
  unfolding neumann_left_def
  by (rule shape_set_col_tail) (simp_all add: shape_def)

lemma shape_neumann_right:
  "shape U n m \<Longrightarrow> length rsb = n - 1 \<Longrightarrow> shape (neumann_right U rsb) n m"
  unfolding neumann_right_def
  by (rule shape_set_col_init) (simp_all add: shape_def)

lemma nth_neumann_left:
  assumes "shape U n m" "length lsb = n - 1" "k < n" "j < m"
  shows "neumann_left U lsb ! k ! j =
           (if 0 < k \<and> j = 0 then U ! k ! 1 - lsb ! (k - 1) else U ! k ! j)"
proof -
  have n: "length U = n" and r: "length (U ! k) = m"
    using assms(1,3) by (auto simp: shape_def)
  have len: "length (map2 (-) (col_tail U 1) lsb) = length U - 1"
    by (simp add: n assms(2))
  have row: "neumann_left U lsb ! k =
      (if k = 0 then U ! 0 else (U ! k)[0 := map2 (-) (col_tail U 1) lsb ! (k - 1)])"
    unfolding neumann_left_def using nth_set_col_tail[OF len, of k 0] assms(3) n by simp
  have v: "map2 (-) (col_tail U 1) lsb ! (k - 1) = U ! k ! 1 - lsb ! (k - 1)" if "0 < k"
    using that assms(2,3) n by (cases k) (simp_all add: col_tail_def)
  show ?thesis
    using assms(3,4) r v by (auto simp: row nth_list_update)
qed

lemma nth_neumann_right:
  assumes "shape U n m" "length rsb = n - 1" "k < n" "j < m"
  shows "neumann_right U rsb ! k ! j =
           (if k < n - 1 \<and> j = m - 1 then U ! k ! (m - 2) + rsb ! k else U ! k ! j)"
proof -
  have n: "length U = n" and r: "length (U ! k) = m"
    using assms(1,3) by (auto simp: shape_def)
  have m: "n_micro_of U = m" using shape_n_micro[OF assms(1)] assms(3) by simp
  have len: "length (map2 (+) (col_init U (m - 2)) rsb) = length U - 1"
    by (simp add: n assms(2))
  have row: "neumann_right U rsb ! k =
      (if k = n - 1 then U ! k else (U ! k)[m - 1 := map2 (+) (col_init U (m - 2)) rsb ! k])"
    unfolding neumann_right_def m using nth_set_col_init[OF len, of k "m - 1"] assms(3) n by simp
  have v: "map2 (+) (col_init U (m - 2)) rsb ! k = U ! k ! (m - 2) + rsb ! k" if "k < n - 1"
    using that assms(2,3) n by (simp add: col_init_def nth_butlast)
  show ?thesis
    using assms(3,4) r v by (auto simp: row nth_list_update)
qed

lemma enforce_bcs_multi':
  assumes "1 < length U" "enforce_bcs U dx ls rs = Inr U'"
  obtains lsb rsb where
    "2 \<le> n_micro_of U"
    "broadcast_to (length U - 1) (map (\<lambda>s. s * dx) (drop 1 ls)) = Inr lsb"
    "broadcast_to (length U - 1) (map (\<lambda>s. s * dx) (butlast rs)) = Inr rsb"
    "length lsb = length U - 1" "length rsb = length U - 1"
    "shape U (length U) (n_micro_of U) \<Longrightarrow> U' = neumann_right (neumann_left (dirichlet U) lsb) rsb"
proof -
  from enforce_bcs_multi[OF assms] obtain lsb rsb where
    m2: "2 \<le> n_micro_of U" and
    l: "broadcast_to (length U - 1) (map (\<lambda>s. s * dx) (drop 1 ls)) = Inr lsb" and
    r: "broadcast_to (length U - 1) (map (\<lambda>s. s * dx) (butlast rs)) = Inr rsb" and
    U': "U' = set_col_init
            (set_col_tail (dirichlet U) 0 (map2 (-) (col_tail (dirichlet U) 1) lsb))
            (n_micro_of U - 1)
            (map2 (+)
               (col_init
                  (set_col_tail (dirichlet U) 0 (map2 (-) (col_tail (dirichlet U) 1) lsb))
                  (n_micro_of U - 2)) rsb)"
    by blast
  have ll: "length lsb = length U - 1" and lr: "length rsb = length U - 1"
    using broadcast_to_length[OF l] broadcast_to_length[OF r] by simp_all
  have "U' = neumann_right (neumann_left (dirichlet U) lsb) rsb"
    if s: "shape U (length U) (n_micro_of U)"
  proof -
    have "shape (neumann_left (dirichlet U) lsb) (length U) (n_micro_of U)"
      by (rule shape_neumann_left[OF shape_dirichlet[OF s] ll])
    then have "n_micro_of (neumann_left (dirichlet U) lsb) = n_micro_of U"
      using shape_n_micro assms(1) by fastforce
    then show ?thesis
      unfolding U' neumann_right_def by (simp add: neumann_left_def)
  qed
  then show ?thesis using that m2 l r ll lr by blast
qed

lemma length_roll [simp]: "length (roll s r) = length r"
  by (simp add: roll_def)

lemma length_rhs_row [simp]: "length (rhs_row ops dx lam r) = length r"
  by (simp add: rhs_row_def Let_def)

lemma shape_map_rows:
  "shape U n m \<Longrightarrow> (\<And>r. length (f r) = length r) \<Longrightarrow> shape (map f U) n m"
  by (simp add: shape_def)

lemma shape_scal_mul: "shape A n m \<Longrightarrow> shape (scal_mul c A) n m"
  by (simp add: shape_def scal_mul_def)

lemma shape_arr_div_scal: "shape A n m \<Longrightarrow> shape (arr_div_scal A c) n m"
  by (simp add: shape_def arr_div_scal_def)

lemma shape_arr_add: "shape A n m \<Longrightarrow> shape B n m \<Longrightarrow> shape (arr_add A B) n m"
  by (simp add: shape_def arr_add_def)

lemma shape_arr_sub: "shape A n m \<Longrightarrow> shape B n m \<Longrightarrow> shape (arr_sub A B) n m"
  by (simp add: shape_def arr_sub_def)

lemma rhs_vectorised_shape:
  "shape U n m \<Longrightarrow> rhs_vectorised ops U dx params = Inr R \<Longrightarrow> shape R n m"
  by (auto simp: rhs_vectorised_def shape_def split: option.splits sum.splits)

lemma euler_step_shape:
  assumes "shape U n m" "euler_step ops U dx dt ls rs params = Inr U'"
  shows "shape U' n m"
proof -
  from assms(2) obtain R where R: "rhs_vectorised ops U dx params = Inr R"
    and E: "enforce_bcs (arr_add U (scal_mul dt R)) dx ls rs = Inr U'"
    by (auto simp: euler_step_def split: sum.splits)
  have "shape (arr_add U (scal_mul dt R)) n m"
    by (intro shape_arr_add shape_scal_mul assms(1) rhs_vectorised_shape[OF assms(1) R])
  then show ?thesis using enforce_bcs_shape E by blast
qed

lemma euler_loop_shape:
  "shape U n m \<Longrightarrow> euler_loop i ops U dx dt ls rs params = Inr U' \<Longrightarrow> shape U' n m"
proof (induction i arbitrary: U)
  case 0
  then show ?case by simp
next
  case (Suc i)
  then show ?case by (auto split: sum.splits dest: euler_step_shape)
qed

lemma enforce_bcs_dirichlet_values:
  assumes "shape U n m" "enforce_bcs U dx ls rs = Inr U'"
  shows "0 < n" "0 < m" "U' ! 0 ! 0 = 0" "U' ! (n - 1) ! (m - 1) = 0"
proof -
  have len: "length U = n" using assms(1) by (simp add: shape_def)
  from assms(2) show n0: "0 < n"
    by (auto simp: enforce_bcs_def Let_def n_teeth_of_def len split: if_splits)
  have m: "n_micro_of U = m" using shape_n_micro[OF assms(1) n0] .
  from assms(2) show m0: "0 < m"
    by (auto simp: enforce_bcs_def Let_def m split: if_splits)
  have d: "shape (dirichlet U) n m" by (rule shape_dirichlet[OF assms(1)])
  have "U' ! 0 ! 0 = 0 \<and> U' ! (n - 1) ! (m - 1) = 0"
  proof (cases "n = 1")
    case True
    then have "U' = dirichlet U" using enforce_bcs_single(1)[OF _ assms(2)] len by simp
    then show ?thesis
      using nth_dirichlet[OF assms(1)] n0 m0 by simp
  next
    case False
    then have n1: "1 < length U" using n0 len by simp
    from enforce_bcs_multi'[OF n1 assms(2)] obtain lsb rsb where
      m2: "2 \<le> n_micro_of U" and
      ll: "length lsb = length U - 1" and lr: "length rsb = length U - 1" and
      U': "shape U (length U) (n_micro_of U) \<Longrightarrow>
             U' = neumann_right (neumann_left (dirichlet U) lsb) rsb"
      by blast
    have U'': "U' = neumann_right (neumann_left (dirichlet U) lsb) rsb"
      using U' assms(1) len m by simp
    have l: "shape (neumann_left (dirichlet U) lsb) n m"
      using shape_neumann_left[OF d] ll len by simp
    have lr': "length rsb = n - 1" using lr len by simp
    have ll': "length lsb = n - 1" using ll len by simp
    have "U' ! 0 ! 0 = 0"
      using n0 m0 m2 m n1 len
      by (simp add: U'' nth_neumann_right[OF l lr'] nth_neumann_left[OF d ll'] nth_dirichlet[OF assms(1)])
    moreover have "U' ! (n - 1) ! (m - 1) = 0"
      using n0 m0 m2 m n1 len
      by (simp add: U'' nth_neumann_right[OF l lr'] nth_neumann_left[OF d ll'] nth_dirichlet[OF assms(1)])
    ultimately show ?thesis by simp
  qed
  then show "U' ! 0 ! 0 = 0" "U' ! (n - 1) ! (m - 1) = 0" by simp_all
qed

lemma shape_hd_last:
  assumes "shape U n m" "0 < n" "0 < m"
  shows "U \<noteq> []" "hd U \<noteq> []" "last U \<noteq> []" "hd (hd U) = U ! 0 ! 0"
    "last (last U) = U ! (n - 1) ! (m - 1)"
proof -
  have len: "length U = n" and r: "\<And>k. k < n \<Longrightarrow> length (U ! k) = m"
    using assms(1) by (auto simp: shape_def)
  show ne: "U \<noteq> []" using len assms(2) by auto
  have h: "hd U = U ! 0" using ne by (simp add: hd_conv_nth)
  have l: "last U = U ! (n - 1)" using ne len by (simp add: last_conv_nth)
  show hne: "hd U \<noteq> []" using r[of 0] assms(2,3) h by auto
  show lne: "last U \<noteq> []" using r[of "n - 1"] assms(2,3) l by auto
  show "hd (hd U) = U ! 0 ! 0" using hne h by (simp add: hd_conv_nth)
  show "last (last U) = U ! (n - 1) ! (m - 1)"
    using lne l r[of "n - 1"] assms(2) by (simp add: last_conv_nth)
qed

lemma projective_microcycle_final:
  assumes "projective_microcycle ops U dx dt Dt K ls rs params = Inr U'"
  obtains U_prev U_last k where
    "euler_loop (nat (K - 1)) ops U dx dt ls rs params = Inr U_prev"
    "euler_step ops U_prev dx dt ls rs params = Inr U_last"
    "enforce_bcs (arr_add U_last (scal_mul (Dt - k * dt)
        (arr_div_scal (arr_sub U_last U_prev) dt))) dx ls rs = Inr U'"
    "from_int ops K = Inr k"
  using assms by (auto simp: projective_microcycle_def Let_def split: sum.splits)

lemma projective_microcycle_shape:
  assumes "shape U n m" "projective_microcycle ops U dx dt Dt K ls rs params = Inr U'"
  shows "shape U' n m"
proof -
  from projective_microcycle_final[OF assms(2)] obtain U_prev U_last k where
    a: "euler_loop (nat (K - 1)) ops U dx dt ls rs params = Inr U_prev" and
    b: "euler_step ops U_prev dx dt ls rs params = Inr U_last" and
    c: "enforce_bcs (arr_add U_last (scal_mul (Dt - k * dt)
        (arr_div_scal (arr_sub U_last U_prev) dt))) dx ls rs = Inr U'"
    by blast
  have p: "shape U_prev n m" by (rule euler_loop_shape[OF assms(1) a])
  have l: "shape U_last n m" by (rule euler_step_shape[OF p b])
  have "shape (arr_add U_last (scal_mul (Dt - k * dt)
        (arr_div_scal (arr_sub U_last U_prev) dt))) n m"
    by (intro shape_arr_add shape_scal_mul shape_arr_div_scal shape_arr_sub p l)
  then show ?thesis using enforce_bcs_shape c by blast
qed

subsection \<open>The boundary values\<close>

text \<open>
  Claim C2. For a rectangular PatchSet, any slopes and any parameters: when
  \<^verbatim>\<open>euler_step\<close> or \<^verbatim>\<open>projective_microcycle\<close> returns an array, the leftmost value
  of patch 0 and the rightmost value of the last patch of that array are the \<open>0\<close> that
  the boundary conditions assign. The statement is about the scalars as values, so it
  holds for whatever the float operations compute.
\<close>

theorem boundary_invariant:
  assumes "rect U"
    and "euler_step ops U dx dt ls rs params = Inr U' \<or>
         projective_microcycle ops U dx dt Dt K ls rs params = Inr U'"
  shows "U' \<noteq> [] \<and> hd U' \<noteq> [] \<and> last U' \<noteq> [] \<and> hd (hd U') = 0 \<and> last (last U') = 0"
proof -
  let ?n = "length U" and ?m = "n_micro_of U"
  have s: "shape U ?n ?m" by (rule rect_shape[OF assms(1)])
  have "\<exists>V. shape V ?n ?m \<and> enforce_bcs V dx ls rs = Inr U'"
  proof -
    from assms(2) show ?thesis
    proof
      assume e: "euler_step ops U dx dt ls rs params = Inr U'"
      then obtain R where R: "rhs_vectorised ops U dx params = Inr R"
        and E: "enforce_bcs (arr_add U (scal_mul dt R)) dx ls rs = Inr U'"
        by (auto simp: euler_step_def split: sum.splits)
      have "shape (arr_add U (scal_mul dt R)) ?n ?m"
        by (intro shape_arr_add shape_scal_mul s rhs_vectorised_shape[OF s R])
      then show ?thesis using E by blast
    next
      assume p: "projective_microcycle ops U dx dt Dt K ls rs params = Inr U'"
      from projective_microcycle_final[OF p] obtain U_prev U_last k where
        a: "euler_loop (nat (K - 1)) ops U dx dt ls rs params = Inr U_prev" and
        b: "euler_step ops U_prev dx dt ls rs params = Inr U_last" and
        c: "enforce_bcs (arr_add U_last (scal_mul (Dt - k * dt)
            (arr_div_scal (arr_sub U_last U_prev) dt))) dx ls rs = Inr U'"
        by blast
      have sp: "shape U_prev ?n ?m" by (rule euler_loop_shape[OF s a])
      have sl: "shape U_last ?n ?m" by (rule euler_step_shape[OF sp b])
      have "shape (arr_add U_last (scal_mul (Dt - k * dt)
            (arr_div_scal (arr_sub U_last U_prev) dt))) ?n ?m"
        by (intro shape_arr_add shape_scal_mul shape_arr_div_scal shape_arr_sub sp sl)
      then show ?thesis using c by blast
    qed
  qed
  then obtain V where V: "shape V ?n ?m" and E: "enforce_bcs V dx ls rs = Inr U'"
    by blast
  note d = enforce_bcs_dirichlet_values[OF V E]
  have s': "shape U' ?n ?m" by (rule enforce_bcs_shape[OF V E])
  show ?thesis
    using shape_hd_last[OF s' d(1,2)] d(3,4) by simp
qed

text \<open>One micro step on two patches of three points.\<close>

lemma rhs_example:
  "rhs_vectorised real_ops [[1, 2, 3], [4, 5, 6]] 1 (Map.empty(''lambda'' \<mapsto> 0)) =
     Inr [[3, 0, - 3], [3, 0, - 3]]"
  by (simp add: rhs_vectorised_def rhs_row_def roll_def real_ops_simps eval_nat_numeral)

lemma bcs_example:
  "enforce_bcs [[4, 2, 0], [7, 5, 3::real]] 1 [0, 1] [1, 0] = Inr [[0, 2, 3], [4, 5, 0]]"
  by (simp add: enforce_bcs_def n_teeth_of_def n_micro_of_def set2_def set_col_tail_def
      set_col_init_def col_tail_def col_init_def broadcast_to_def Let_def)

lemma euler_step_example:
  "euler_step real_ops [[1, 2, 3], [4, 5, 6]] 1 1 [0, 1] [1, 0] (Map.empty(''lambda'' \<mapsto> 0)) =
     Inr [[0, 2, 3], [4, 5, 0]]"
  by (simp add: euler_step_def rhs_example arr_add_def scal_mul_def bcs_example)

theorem boundary_invariant_witness:
  "rect [[1, 2, 3], [4, 5, 6::real]] \<and>
   euler_step real_ops [[1, 2, 3], [4, 5, 6]] 1 1 [0, 1] [1, 0] (Map.empty(''lambda'' \<mapsto> 0)) =
     Inr [[0, 2, 3], [4, 5, 0]] \<and>
   hd (hd [[0, 2, 3], [4, 5, 0::real]]) = 0 \<and> last (last [[0, 2, 3], [4, 5, 0::real]]) = 0"
proof -
  have r: "rect [[1, 2, 3], [4, 5, 6::real]]"
    by (simp add: rect_def n_micro_of_def)
  from boundary_invariant[OF r disjI1[OF euler_step_example]] r euler_step_example
  show ?thesis by blast
qed

subsection \<open>The inner patch edges\<close>

lemma step_result_is_bcs:
  assumes "rect U"
    and "euler_step ops U dx dt ls rs params = Inr U' \<or>
         projective_microcycle ops U dx dt Dt K ls rs params = Inr U'"
  shows "\<exists>V. shape V (length U) (n_micro_of U) \<and> enforce_bcs V dx ls rs = Inr U'"
proof -
  let ?n = "length U" and ?m = "n_micro_of U"
  have s: "shape U ?n ?m" by (rule rect_shape[OF assms(1)])
  from assms(2) show ?thesis
  proof
    assume e: "euler_step ops U dx dt ls rs params = Inr U'"
    then obtain R where R: "rhs_vectorised ops U dx params = Inr R"
      and E: "enforce_bcs (arr_add U (scal_mul dt R)) dx ls rs = Inr U'"
      by (auto simp: euler_step_def split: sum.splits)
    have "shape (arr_add U (scal_mul dt R)) ?n ?m"
      by (intro shape_arr_add shape_scal_mul s rhs_vectorised_shape[OF s R])
    then show ?thesis using E by blast
  next
    assume p: "projective_microcycle ops U dx dt Dt K ls rs params = Inr U'"
    from projective_microcycle_final[OF p] obtain U_prev U_last k where
      a: "euler_loop (nat (K - 1)) ops U dx dt ls rs params = Inr U_prev" and
      b: "euler_step ops U_prev dx dt ls rs params = Inr U_last" and
      c: "enforce_bcs (arr_add U_last (scal_mul (Dt - k * dt)
          (arr_div_scal (arr_sub U_last U_prev) dt))) dx ls rs = Inr U'"
      by blast
    have sp: "shape U_prev ?n ?m" by (rule euler_loop_shape[OF s a])
    have sl: "shape U_last ?n ?m" by (rule euler_step_shape[OF sp b])
    have "shape (arr_add U_last (scal_mul (Dt - k * dt)
          (arr_div_scal (arr_sub U_last U_prev) dt))) ?n ?m"
      by (intro shape_arr_add shape_scal_mul shape_arr_div_scal shape_arr_sub sp sl)
    then show ?thesis using c by blast
  qed
qed

lemma broadcast_to_same: "length vs = n \<Longrightarrow> broadcast_to n vs = Inr ws \<Longrightarrow> ws = vs"
  by (simp add: broadcast_to_def)

lemma enforce_bcs_values:
  assumes s: "shape V n m" and e: "enforce_bcs V dx ls rs = Inr U'" and n1: "1 < n"
  obtains lsb rsb where
    "broadcast_to (n - 1) (map (\<lambda>s. s * dx) (drop 1 ls)) = Inr lsb"
    "broadcast_to (n - 1) (map (\<lambda>s. s * dx) (butlast rs)) = Inr rsb"
    "length lsb = n - 1" "length rsb = n - 1" "2 \<le> m"
    "\<And>k j. k < n \<Longrightarrow> j < m \<Longrightarrow>
       neumann_left (dirichlet V) lsb ! k ! j =
         (if 0 < k \<and> j = 0 then dirichlet V ! k ! 1 - lsb ! (k - 1) else dirichlet V ! k ! j)"
    "\<And>k j. k < n \<Longrightarrow> j < m \<Longrightarrow>
       U' ! k ! j =
         (if k < n - 1 \<and> j = m - 1 then neumann_left (dirichlet V) lsb ! k ! (m - 2) + rsb ! k
          else neumann_left (dirichlet V) lsb ! k ! j)"
proof -
  have len: "length V = n" using s by (simp add: shape_def)
  have m: "n_micro_of V = m" using shape_n_micro[OF s] n1 by simp
  have n1': "1 < length V" using n1 len by simp
  from enforce_bcs_multi'[OF n1' e] obtain lsb rsb where
    m2: "2 \<le> n_micro_of V" and
    bl: "broadcast_to (length V - 1) (map (\<lambda>s. s * dx) (drop 1 ls)) = Inr lsb" and
    br: "broadcast_to (length V - 1) (map (\<lambda>s. s * dx) (butlast rs)) = Inr rsb" and
    ll: "length lsb = length V - 1" and lr: "length rsb = length V - 1" and
    U': "shape V (length V) (n_micro_of V) \<Longrightarrow>
           U' = neumann_right (neumann_left (dirichlet V) lsb) rsb"
    by blast
  have U'': "U' = neumann_right (neumann_left (dirichlet V) lsb) rsb"
    using U' s len m by simp
  have d: "shape (dirichlet V) n m" by (rule shape_dirichlet[OF s])
  have ll': "length lsb = n - 1" and lr': "length rsb = n - 1" using ll lr len by simp_all
  have l: "shape (neumann_left (dirichlet V) lsb) n m"
    by (rule shape_neumann_left[OF d ll'])
  show ?thesis
  proof (rule that[of lsb rsb])
    show "broadcast_to (n - 1) (map (\<lambda>s. s * dx) (drop 1 ls)) = Inr lsb" using bl len by simp
    show "broadcast_to (n - 1) (map (\<lambda>s. s * dx) (butlast rs)) = Inr rsb" using br len by simp
    show "length lsb = n - 1" by (rule ll')
    show "length rsb = n - 1" by (rule lr')
    show "2 \<le> m" using m2 m by simp
    show "\<And>k j. k < n \<Longrightarrow> j < m \<Longrightarrow>
       neumann_left (dirichlet V) lsb ! k ! j =
         (if 0 < k \<and> j = 0 then dirichlet V ! k ! 1 - lsb ! (k - 1) else dirichlet V ! k ! j)"
      by (rule nth_neumann_left[OF d ll'])
    show "\<And>k j. k < n \<Longrightarrow> j < m \<Longrightarrow>
       U' ! k ! j =
         (if k < n - 1 \<and> j = m - 1 then neumann_left (dirichlet V) lsb ! k ! (m - 2) + rsb ! k
          else neumann_left (dirichlet V) lsb ! k ! j)"
      unfolding U'' by (rule nth_neumann_right[OF l lr'])
  qed
qed

lemma enforce_bcs_edges:
  assumes s: "shape V n m" and e: "enforce_bcs V dx ls rs = Inr U'"
    and ls: "length ls = n" and rs: "length rs = n" and k: "0 < k" "k < n - 1"
  shows "U' ! k ! (m - 1) = U' ! k ! (m - 2) + rs ! k * dx \<and>
         (3 \<le> m \<longrightarrow> U' ! k ! 0 = U' ! k ! 1 - ls ! k * dx)"
proof (rule enforce_bcs_values[OF s e])
  show "1 < n" using k by simp
next
  fix lsb rsb
  assume bl: "broadcast_to (n - 1) (map (\<lambda>s. s * dx) (drop 1 ls)) = Inr lsb"
    and br: "broadcast_to (n - 1) (map (\<lambda>s. s * dx) (butlast rs)) = Inr rsb"
    and m2: "2 \<le> m"
    and L: "\<And>k j. k < n \<Longrightarrow> j < m \<Longrightarrow>
       neumann_left (dirichlet V) lsb ! k ! j =
         (if 0 < k \<and> j = 0 then dirichlet V ! k ! 1 - lsb ! (k - 1) else dirichlet V ! k ! j)"
    and R: "\<And>k j. k < n \<Longrightarrow> j < m \<Longrightarrow>
       U' ! k ! j =
         (if k < n - 1 \<and> j = m - 1 then neumann_left (dirichlet V) lsb ! k ! (m - 2) + rsb ! k
          else neumann_left (dirichlet V) lsb ! k ! j)"
  have lsb: "lsb = map (\<lambda>s. s * dx) (drop 1 ls)"
    by (rule broadcast_to_same[OF _ bl]) (simp add: ls)
  have rsb: "rsb = map (\<lambda>s. s * dx) (butlast rs)"
    by (rule broadcast_to_same[OF _ br]) (simp add: rs)
  have lk: "lsb ! (k - 1) = ls ! k * dx"
    using k ls by (cases k) (simp_all add: lsb)
  have rk: "rsb ! k = rs ! k * dx"
    using k rs by (simp add: rsb nth_butlast)
  have kn: "k < n" using k by simp
  have ne: "m - 2 \<noteq> m - 1" "m - 2 < m" "m - 1 < m" using m2 by arith+
  have a: "U' ! k ! (m - 1) = neumann_left (dirichlet V) lsb ! k ! (m - 2) + rsb ! k"
    using R[OF kn ne(3)] k by simp
  have b: "U' ! k ! (m - 2) = neumann_left (dirichlet V) lsb ! k ! (m - 2)"
    using R[OF kn ne(2)] ne(1) by simp
  have right: "U' ! k ! (m - 1) = U' ! k ! (m - 2) + rs ! k * dx"
    by (simp only: a b rk)
  have left: "U' ! k ! 0 = U' ! k ! 1 - ls ! k * dx" if m3: "3 \<le> m"
  proof -
    have ne3: "0 \<noteq> m - 1" "1 \<noteq> m - 1" "0 < m" "1 < m" using m3 by arith+
    have c: "U' ! k ! 0 = neumann_left (dirichlet V) lsb ! k ! 0"
      using R[OF kn ne3(3)] ne3(1) by simp
    have d: "U' ! k ! 1 = neumann_left (dirichlet V) lsb ! k ! 1"
      using R[OF kn ne3(4)] ne3(2) by simp
    have e: "neumann_left (dirichlet V) lsb ! k ! 0 = dirichlet V ! k ! 1 - lsb ! (k - 1)"
      using L[OF kn ne3(3)] k by simp
    have f: "neumann_left (dirichlet V) lsb ! k ! 1 = dirichlet V ! k ! 1"
      using L[OF kn ne3(4)] by simp
    show ?thesis by (simp only: c d e f lk)
  qed
  show "U' ! k ! (m - 1) = U' ! k ! (m - 2) + rs ! k * dx \<and>
         (3 \<le> m \<longrightarrow> U' ! k ! 0 = U' ! k ! 1 - ls ! k * dx)"
    using right left by blast
qed

text \<open>
  Claim C3 (amended). For a rectangular PatchSet with one slope per patch and an inner
  patch \<open>0 < k < n_teeth - 1\<close>: when \<^verbatim>\<open>euler_step\<close> or
  \<^verbatim>\<open>projective_microcycle\<close> returns \<open>U'\<close>, the right edge satisfies
  \<open>U'[k,-1] = U'[k,-2] + right_slope[k] * dx\<close>, and with at least three micro points
  per patch the left edge satisfies \<open>U'[k,0] = U'[k,1] - left_slope[k] * dx\<close>. The
  equalities are between the values of the assigned expressions.
\<close>

theorem internal_edge_invariant:
  assumes "rect U"
    and "euler_step ops U dx dt ls rs params = Inr U' \<or>
         projective_microcycle ops U dx dt Dt K ls rs params = Inr U'"
    and "length ls = n_teeth_of U" and "length rs = n_teeth_of U"
    and "0 < k" and "k < n_teeth_of U - 1"
  shows "last (U' ! k) = U' ! k ! (n_micro_of U - 2) + rs ! k * dx \<and>
         (3 \<le> n_micro_of U \<longrightarrow> hd (U' ! k) = U' ! k ! 1 - ls ! k * dx)"
proof -
  let ?n = "length U" and ?m = "n_micro_of U"
  from step_result_is_bcs[OF assms(1,2)] obtain V where
    V: "shape V ?n ?m" and E: "enforce_bcs V dx ls rs = Inr U'"
    by blast
  have s': "shape U' ?n ?m" by (rule enforce_bcs_shape[OF V E])
  have kn: "k < ?n" using assms(6) by (simp add: n_teeth_of_def)
  have lk: "length (U' ! k) = ?m" using s' kn by (simp add: shape_def)
  have m0: "0 < ?m" by (rule enforce_bcs_dirichlet_values(2)[OF V E])
  have ne: "U' ! k \<noteq> []" using lk m0 by auto
  have l: "last (U' ! k) = U' ! k ! (?m - 1)" using ne lk by (simp add: last_conv_nth)
  have h: "hd (U' ! k) = U' ! k ! 0" using ne by (simp add: hd_conv_nth)
  have ed: "U' ! k ! (?m - 1) = U' ! k ! (?m - 2) + rs ! k * dx \<and>
         (3 \<le> ?m \<longrightarrow> U' ! k ! 0 = U' ! k ! 1 - ls ! k * dx)"
    by (rule enforce_bcs_edges[OF V E assms(3,4)[unfolded n_teeth_of_def] assms(5)
      assms(6)[unfolded n_teeth_of_def]])
  show ?thesis unfolding l h by (rule ed)
qed

text \<open>
  With two micro points per patch column 1 is also column \<open>-1\<close>: the assignment of
  the right edges overwrites the value the left edge was computed from, and the left
  equality of the claim fails on the inner patch of three.
\<close>

lemma rhs_zero3x2:
  "rhs_vectorised real_ops [[0, 0], [0, 0], [0, 0]] 1 (Map.empty(''lambda'' \<mapsto> 0)) =
     Inr [[0, 0], [0, 0], [0, 0]]"
  by (simp add: rhs_vectorised_def rhs_row_def roll_def real_ops_simps eval_nat_numeral)

lemmas bcs_eval = enforce_bcs_def n_teeth_of_def n_micro_of_def set2_def set_col_tail_def
  set_col_init_def col_tail_def col_init_def broadcast_to_def Let_def

lemma bcs_zero3x2:
  "enforce_bcs [[0, 0], [0, 0], [0, 0::real]] 1 [0, 1, 0] [0, 0, 0] =
     Inr [[0, 0], [- 1, - 1], [0, 0]]"
  by (simp add: bcs_eval)

lemma euler_step_zero3x2:
  "euler_step real_ops [[0, 0], [0, 0], [0, 0]] 1 1 [0, 1, 0] [0, 0, 0]
     (Map.empty(''lambda'' \<mapsto> 0)) = Inr [[0, 0], [- 1, - 1], [0, 0]]"
  by (simp add: euler_step_def rhs_zero3x2 arr_add_def scal_mul_def bcs_zero3x2)

theorem internal_edge_counterexample:
  "euler_step real_ops [[0, 0], [0, 0], [0, 0]] 1 1 [0, 1, 0] [0, 0, 0]
     (Map.empty(''lambda'' \<mapsto> 0)) = Inr [[0, 0], [- 1, - 1], [0, 0]] \<and>
   [[0, 0], [- 1, - 1], [0, 0::real]] ! 1 ! 0 \<noteq>
     [[0, 0], [- 1, - 1], [0, 0]] ! 1 ! 1 - [0, 1, 0] ! 1 * 1"
  by (simp add: euler_step_zero3x2)

lemma rhs_3x3:
  "rhs_vectorised real_ops [[0, 0, 0], [0, 1, 0], [0, 0, 0]] 1 (Map.empty(''lambda'' \<mapsto> 0)) =
     Inr [[0, 0, 0], [1, - 2, 1], [0, 0, 0]]"
  by (simp add: rhs_vectorised_def rhs_row_def roll_def real_ops_simps eval_nat_numeral)

lemma bcs_3x3:
  "enforce_bcs [[0, 0, 0], [1, - 1, 1], [0, 0, 0::real]] 1 [0, 1, 0] [0, 2, 0] =
     Inr [[0, 0, 0], [- 2, - 1, 1], [0, 0, 0]]"
  by (simp add: bcs_eval)

lemma euler_step_3x3:
  "euler_step real_ops [[0, 0, 0], [0, 1, 0], [0, 0, 0]] 1 1 [0, 1, 0] [0, 2, 0]
     (Map.empty(''lambda'' \<mapsto> 0)) = Inr [[0, 0, 0], [- 2, - 1, 1], [0, 0, 0]]"
  by (simp add: euler_step_def rhs_3x3 arr_add_def scal_mul_def bcs_3x3)

theorem internal_edge_invariant_witness:
  "rect [[0, 0, 0], [0, 1, 0], [0, 0, 0::real]] \<and>
   euler_step real_ops [[0, 0, 0], [0, 1, 0], [0, 0, 0]] 1 1 [0, 1, 0] [0, 2, 0]
     (Map.empty(''lambda'' \<mapsto> 0)) = Inr [[0, 0, 0], [- 2, - 1, 1], [0, 0, 0]] \<and>
   length [0, 1, 0::real] = n_teeth_of [[0, 0, 0], [0, 1, 0], [0, 0, 0::real]] \<and>
   (0::nat) < 1 \<and> (1::nat) < n_teeth_of [[0, 0, 0], [0, 1, 0], [0, 0, 0::real]] - 1 \<and>
   (3::nat) \<le> n_micro_of [[0, 0, 0], [0, 1, 0], [0, 0, 0::real]] \<and>
   last ([[0, 0, 0], [- 2, - 1, 1], [0, 0, 0::real]] ! 1) =
     [[0, 0, 0], [- 2, - 1, 1], [0, 0, 0]] ! 1 ! (3 - 2) + [0, 2, 0] ! 1 * 1 \<and>
   hd ([[0, 0, 0], [- 2, - 1, 1], [0, 0, 0::real]] ! 1) =
     [[0, 0, 0], [- 2, - 1, 1], [0, 0, 0]] ! 1 ! 1 - [0, 1, 0] ! 1 * 1"
proof -
  have r: "rect [[0, 0, 0], [0, 1, 0], [0, 0, 0::real]]"
    by (simp add: rect_def n_micro_of_def)
  have n: "n_teeth_of [[0, 0, 0], [0, 1, 0], [0, 0, 0::real]] = 3"
    and m: "n_micro_of [[0, 0, 0], [0, 1, 0], [0, 0, 0::real]] = 3"
    by (simp_all add: n_teeth_of_def n_micro_of_def)
  have k: "(1::nat) < n_teeth_of [[0, 0, 0], [0, 1, 0], [0, 0, 0::real]] - 1"
    by (simp add: n)
  have "last ([[0, 0, 0], [- 2, - 1, 1], [0, 0, 0::real]] ! 1) =
     [[0, 0, 0], [- 2, - 1, 1], [0, 0, 0]] ! 1 !
       (n_micro_of [[0, 0, 0], [0, 1, 0], [0, 0, 0::real]] - 2) + [0, 2, 0] ! 1 * 1 \<and>
     (3 \<le> n_micro_of [[0, 0, 0], [0, 1, 0], [0, 0, 0::real]] \<longrightarrow>
      hd ([[0, 0, 0], [- 2, - 1, 1], [0, 0, 0::real]] ! 1) =
        [[0, 0, 0], [- 2, - 1, 1], [0, 0, 0]] ! 1 ! 1 - [0, 1, 0] ! 1 * 1)"
    by (rule internal_edge_invariant[OF r disjI1[OF euler_step_3x3] _ _ _ k]) (simp_all add: n)
  then show ?thesis using r euler_step_3x3 n m by simp
qed

subsection \<open>The projective cycle as the spec words it\<close>

text \<open>Sequencing of fallible steps: the first error ends the computation.\<close>

definition after_ok :: "error + 'a \<Rightarrow> ('a \<Rightarrow> error + 'b) \<Rightarrow> error + 'b" where
  "after_ok r f = (case r of Inl e \<Rightarrow> Inl e | Inr x \<Rightarrow> f x)"

text \<open>"Apply MicroStepper \<open>n\<close> times": the \<open>n\<close>-fold iterate of the micro step.\<close>

definition micro_steps ::
  "nat \<Rightarrow> 'a::{plus,minus,times,inverse,zero} float_ops \<Rightarrow> 'a arr2 \<Rightarrow> 'a \<Rightarrow> 'a \<Rightarrow> 'a vec \<Rightarrow> 'a vec \<Rightarrow>
     'a params \<Rightarrow> error + 'a arr2" where
  "micro_steps n ops U dx dt left_slope right_slope params =
     ((\<lambda>r. after_ok r (\<lambda>V. euler_step ops V dx dt left_slope right_slope params)) ^^ n) (Inr U)"

text \<open>"\<open>U_new = U_last + (Dt - K dt) dU/dt\<close> with \<open>dU/dt = (U_last - U_prev) / dt\<close>",
  entry by entry; \<open>c\<close> is the coefficient \<open>Dt - K dt\<close>.\<close>

definition extrapolate ::
  "'a::{plus,minus,times,inverse} \<Rightarrow> 'a \<Rightarrow> 'a arr2 \<Rightarrow> 'a arr2 \<Rightarrow> 'a arr2" where
  "extrapolate c dt U_last U_prev =
     map2 (map2 (\<lambda>l p. l + c * ((l - p) / dt))) U_last U_prev"

lemma after_ok_simps [simp]:
  "after_ok (Inl e) f = Inl e" "after_ok (Inr x) f = f x"
  by (simp_all add: after_ok_def)

lemma funpow_after_ok_Inl:
  fixes f :: "'a \<Rightarrow> error + 'a"
  shows "((\<lambda>r. after_ok r f) ^^ n) (Inl e) = Inl e"
  by (induction n) simp_all

lemma euler_loop_micro_steps:
  "euler_loop n ops U dx dt ls rs params = micro_steps n ops U dx dt ls rs params"
proof (induction n arbitrary: U)
  case 0
  show ?case by (simp add: micro_steps_def)
next
  case (Suc n)
  show ?case
  proof (cases "euler_step ops U dx dt ls rs params")
    case (Inl e)
    then show ?thesis
      by (simp add: micro_steps_def funpow_Suc_right funpow_after_ok_Inl del: funpow.simps)
  next
    case (Inr U')
    then show ?thesis
      using Suc.IH[of U'] by (simp add: micro_steps_def funpow_Suc_right del: funpow.simps)
  qed
qed

lemma extrapolate_row:
  "map2 (+) xs (map ((*) c) (map (\<lambda>a. a / dt) (map2 (-) xs ys))) =
   map2 (\<lambda>l p. l + c * ((l - p) / dt)) xs ys"
proof (induction xs arbitrary: ys)
  case Nil
  show ?case by simp
next
  case (Cons x xs)
  show ?case using Cons.IH by (cases ys) simp_all
qed

lemma extrapolate_arrays:
  "arr_add A (scal_mul c (arr_div_scal (arr_sub A B) dt)) = extrapolate c dt A B"
  unfolding arr_add_def scal_mul_def arr_div_scal_def arr_sub_def extrapolate_def
proof (induction A arbitrary: B)
  case Nil
  show ?case by simp
next
  case (Cons a A)
  show ?case using Cons.IH extrapolate_row[of a c dt] by (cases B) simp_all
qed

text \<open>
  Claim C1. \<^verbatim>\<open>projective_microcycle\<close> applies the micro step \<open>K - 1\<close> times (no time for
  \<open>K \<le> 1\<close>), then once more from the state \<open>U_prev\<close> to the state \<open>U_last\<close>, and
  returns \<open>U_last + (Dt - K dt) ((U_last - U_prev) / dt)\<close> with the boundary conditions
  imposed again, \<open>K\<close> in the product being the int \<open>K\<close> as a float; an error of a
  micro step, of that conversion or of the boundary conditions is the result.
  For \<open>K = 1\<close> no preliminary step is taken and \<open>U_prev\<close> is the input.
\<close>

theorem projective_microcycle_extrapolates:
  "projective_microcycle ops U dx dt Dt K ls rs params =
     after_ok (micro_steps (nat (K - 1)) ops U dx dt ls rs params) (\<lambda>U_prev.
       after_ok (euler_step ops U_prev dx dt ls rs params) (\<lambda>U_last.
         after_ok (from_int ops K) (\<lambda>k.
           enforce_bcs (extrapolate (Dt - k * dt) dt U_last U_prev) dx ls rs))) \<and>
   projective_microcycle ops U dx dt Dt 1 ls rs params =
     after_ok (euler_step ops U dx dt ls rs params) (\<lambda>U_last.
       after_ok (from_int ops 1) (\<lambda>k.
         enforce_bcs (extrapolate (Dt - k * dt) dt U_last U) dx ls rs))"
  by (simp add: projective_microcycle_def euler_loop_micro_steps[symmetric] after_ok_def
      extrapolate_arrays Let_def split: sum.splits)

subsection \<open>What the boundary conditions read\<close>

lemma shape_ext:
  assumes "shape A n m" "shape B n m" "\<And>k j. k < n \<Longrightarrow> j < m \<Longrightarrow> A ! k ! j = B ! k ! j"
  shows "A = B"
proof (rule nth_equalityI)
  show "length A = length B" using assms(1,2) by (simp add: shape_def)
next
  fix k assume "k < length A"
  then have k: "k < n" using assms(1) by (simp add: shape_def)
  have la: "length (A ! k) = m" and lb: "length (B ! k) = m"
    using assms(1,2) k by (simp_all add: shape_def)
  show "A ! k = B ! k"
    by (rule nth_equalityI) (simp_all add: la lb assms(3)[OF k])
qed

lemma enforce_bcs_unfold:
  assumes s: "shape V n m"
  shows "enforce_bcs V dx ls rs =
    (if n = 0 \<or> m = 0 then Inl IndexError
     else if n = 1 then Inr (dirichlet V)
     else if m < 2 then Inl IndexError
     else (case broadcast_to (n - 1) (map (\<lambda>s. s * dx) (drop 1 ls)) of
             Inl e \<Rightarrow> Inl e
           | Inr lsb \<Rightarrow>
               (case broadcast_to (n - 1) (map (\<lambda>s. s * dx) (butlast rs)) of
                  Inl e \<Rightarrow> Inl e
                | Inr rsb \<Rightarrow> Inr (neumann_right (neumann_left (dirichlet V) lsb) rsb))))"
proof -
  have len: "length V = n" using s by (simp add: shape_def)
  consider "n = 0" | "n = 1" | "1 < n" by arith
  then show ?thesis
  proof cases
    case 1
    then show ?thesis using len by (simp add: enforce_bcs_def n_teeth_of_def)
  next
    case 2
    then have m: "n_micro_of V = m" using shape_n_micro[OF s] by simp
    show ?thesis using 2
      by (simp add: enforce_bcs_def Let_def n_teeth_of_def len m dirichlet_def)
  next
    case 3
    then have m: "n_micro_of V = m" using shape_n_micro[OF s] by simp
    have nl: "n_micro_of (neumann_left (dirichlet V) lsb) = m"
      if "broadcast_to (n - 1) vs = Inr lsb" for lsb vs
      using shape_n_micro[OF shape_neumann_left[OF shape_dirichlet[OF s]
            broadcast_to_length[OF that]]] 3 by simp
    have d: "set2 (set2 V 0 0 0) (n - 1) (m - 1) 0 = dirichlet V"
      by (simp add: dirichlet_def n_teeth_of_def len m)
    show ?thesis
    proof (cases "m < 2")
      case True
      then show ?thesis using 3
        by (simp add: enforce_bcs_def Let_def n_teeth_of_def len m)
    next
      case False
      have "enforce_bcs V dx ls rs =
        (case broadcast_to (n - 1) (map (\<lambda>s. s * dx) (drop 1 ls)) of
             Inl e \<Rightarrow> Inl e
           | Inr lsb \<Rightarrow>
               (case broadcast_to (n - 1) (map (\<lambda>s. s * dx) (butlast rs)) of
                  Inl e \<Rightarrow> Inl e
                | Inr rsb \<Rightarrow>
                    Inr (set_col_init (neumann_left (dirichlet V) lsb) (m - 1)
                      (map2 (+) (col_init (neumann_left (dirichlet V) lsb) (m - 2)) rsb))))"
        using 3 False d
        by (simp add: enforce_bcs_def Let_def n_teeth_of_def len m neumann_left_def
            split: sum.splits)
      also have "\<dots> =
        (case broadcast_to (n - 1) (map (\<lambda>s. s * dx) (drop 1 ls)) of
             Inl e \<Rightarrow> Inl e
           | Inr lsb \<Rightarrow>
               (case broadcast_to (n - 1) (map (\<lambda>s. s * dx) (butlast rs)) of
                  Inl e \<Rightarrow> Inl e
                | Inr rsb \<Rightarrow> Inr (neumann_right (neumann_left (dirichlet V) lsb) rsb)))"
        by (auto simp: neumann_right_def nl split: sum.splits)
      finally show ?thesis using 3 False by simp
    qed
  qed
qed

text \<open>The final values after the boundary conditions, entry by entry.\<close>

lemma nth_bcs_multi:
  assumes s: "shape V n m" and ll: "length lsb = n - 1" and lr: "length rsb = n - 1"
    and k: "k < n" and j: "j < m" and m2: "2 \<le> m"
  shows "neumann_right (neumann_left (dirichlet V) lsb) rsb ! k ! j =
    (if k < n - 1 \<and> j = m - 1
     then (if 0 < k \<and> m = 2 then dirichlet V ! k ! 1 - lsb ! (k - 1)
           else dirichlet V ! k ! (m - 2)) + rsb ! k
     else if 0 < k \<and> j = 0 then dirichlet V ! k ! 1 - lsb ! (k - 1)
     else dirichlet V ! k ! j)"
proof -
  have d: "shape (dirichlet V) n m" by (rule shape_dirichlet[OF s])
  have l: "shape (neumann_left (dirichlet V) lsb) n m" by (rule shape_neumann_left[OF d ll])
  show ?thesis
  proof (cases "k < n - 1 \<and> j = m - 1")
    case True
    have m2': "m - 2 < m" using j by arith
    have "m - 2 = 0 \<longleftrightarrow> m = 2" using m2 by arith
    then show ?thesis
      using True nth_neumann_right[OF l lr k j] nth_neumann_left[OF d ll k m2'] by auto
  next
    case False
    show ?thesis
      using False nth_neumann_right[OF l lr k j] nth_neumann_left[OF d ll k j] by auto
  qed
qed

lemma enforce_bcs_cong:
  assumes V: "shape V n m" and W: "shape W n m"
    and inner: "\<And>k j. k < n \<Longrightarrow> 0 < j \<Longrightarrow> j < m - 1 \<Longrightarrow> V ! k ! j = W ! k ! j"
    and ok: "3 \<le> m \<or> n \<le> 2"
  shows "enforce_bcs V dx ls rs = enforce_bcs W dx ls rs"
proof -
  have D: "dirichlet V ! k ! j = dirichlet W ! k ! j"
    if "k < n" "j < m" "(k = 0 \<and> j = 0) \<or> (k = n - 1 \<and> j = m - 1) \<or> (0 < j \<and> j < m - 1)"
    for k j
    using that(3) nth_dirichlet[OF V that(1,2)] nth_dirichlet[OF W that(1,2)] inner[OF that(1)]
    by auto
  have single: "dirichlet V = dirichlet W" if n1: "n = 1"
  proof (rule shape_ext[OF shape_dirichlet[OF V] shape_dirichlet[OF W]])
    fix k j assume k: "k < n" and j: "j < m"
    have "(k = 0 \<and> j = 0) \<or> (k = n - 1 \<and> j = m - 1) \<or> (0 < j \<and> j < m - 1)"
      using k j n1 by arith
    then show "dirichlet V ! k ! j = dirichlet W ! k ! j" by (rule D[OF k j])
  qed
  have multi: "neumann_right (neumann_left (dirichlet V) lsb) rsb =
               neumann_right (neumann_left (dirichlet W) lsb) rsb"
    if n1: "1 < n" and m2: "2 \<le> m" and ll: "length lsb = n - 1" and lr: "length rsb = n - 1"
    for lsb rsb
  proof (rule shape_ext)
    show "shape (neumann_right (neumann_left (dirichlet V) lsb) rsb) n m"
      by (intro shape_neumann_right shape_neumann_left shape_dirichlet V ll lr)
    show "shape (neumann_right (neumann_left (dirichlet W) lsb) rsb) n m"
      by (intro shape_neumann_right shape_neumann_left shape_dirichlet W ll lr)
  next
    fix k j assume k: "k < n" and j: "j < m"
    have one: "1 < m" and m2': "m - 2 < m" using m2 by arith+
    have a1: "\<not> (0 < k \<and> k < n - 1 \<and> m = 2)" using ok by arith
    have a2: "dirichlet V ! k ! (m - 2) = dirichlet W ! k ! (m - 2)" if "\<not> (0 < k \<and> m = 2)"
    proof -
      have "(k = 0 \<and> m - 2 = 0) \<or> (k = n - 1 \<and> m - 2 = m - 1) \<or> (0 < m - 2 \<and> m - 2 < m - 1)"
        using that m2 by arith
      then show ?thesis by (rule D[OF k m2'])
    qed
    have b: "dirichlet V ! k ! 1 = dirichlet W ! k ! 1" if "0 < k"
    proof -
      have "(k = 0 \<and> (1::nat) = 0) \<or> (k = n - 1 \<and> 1 = m - 1) \<or> ((0::nat) < 1 \<and> 1 < m - 1)"
        using that m2 ok k by arith
      then show ?thesis by (rule D[OF k one])
    qed
    have c: "dirichlet V ! k ! j = dirichlet W ! k ! j"
      if "\<not> (k < n - 1 \<and> j = m - 1)" "\<not> (0 < k \<and> j = 0)"
    proof -
      have "(k = 0 \<and> j = 0) \<or> (k = n - 1 \<and> j = m - 1) \<or> (0 < j \<and> j < m - 1)"
        using that k j by arith
      then show ?thesis by (rule D[OF k j])
    qed
    show "neumann_right (neumann_left (dirichlet V) lsb) rsb ! k ! j =
          neumann_right (neumann_left (dirichlet W) lsb) rsb ! k ! j"
      unfolding nth_bcs_multi[OF V ll lr k j m2] nth_bcs_multi[OF W ll lr k j m2]
      using a1 a2 b c by auto
  qed
  show ?thesis
    unfolding enforce_bcs_unfold[OF V] enforce_bcs_unfold[OF W]
    using single multi
    by (auto split: sum.splits dest!: broadcast_to_length)
qed

subsection \<open>The wraparound of the stencil\<close>

text \<open>
  The non-periodic stencil: beyond the two ends of a patch the shifted rows hold the
  values \<open>a\<close> (left of index 0) and \<open>b\<close> (right of the last index) in place of the
  entries that \<^verbatim>\<open>np.roll\<close> wraps around. With \<open>a = b = 0\<close> the missing neighbour is
  dropped from the difference (the one-sided, truncated stencil).
\<close>

definition rhs_row_open ::
  "'a::{plus,minus,times,inverse} float_ops \<Rightarrow> 'a \<Rightarrow> 'a \<Rightarrow> 'a \<Rightarrow> 'a \<Rightarrow> 'a list \<Rightarrow> 'a list" where
  "rhs_row_open ops dx2 lam a b r =
     (let U_left = (if r = [] then [] else tl r @ [b]);
          U_right = (if r = [] then [] else a # butlast r);
          U_xx = map (\<lambda>(l, u, rr). ((l - lit_two ops * u) + rr) / dx2)
                   (zip U_left (zip r U_right))
      in map2 (\<lambda>x u. x + lam * exp_f ops u) U_xx r)"

definition rhs_vectorised_open ::
  "'a::{plus,minus,times,inverse} float_ops \<Rightarrow> 'a \<Rightarrow> 'a \<Rightarrow> 'a arr2 \<Rightarrow> 'a \<Rightarrow> 'a params \<Rightarrow>
     error + 'a arr2" where
  "rhs_vectorised_open ops a b U dx params =
     (case sqr ops dx of
        Inl e \<Rightarrow> Inl e
      | Inr dx2 \<Rightarrow>
          (case params ''lambda'' of
             None \<Rightarrow> Inl KeyError
           | Some lam \<Rightarrow> Inr (map (rhs_row_open ops dx2 lam a b) U)))"

definition euler_step_open ::
  "'a::{plus,minus,times,inverse,zero} float_ops \<Rightarrow> 'a \<Rightarrow> 'a \<Rightarrow> 'a arr2 \<Rightarrow> 'a \<Rightarrow> 'a \<Rightarrow>
     'a vec \<Rightarrow> 'a vec \<Rightarrow> 'a params \<Rightarrow> error + 'a arr2" where
  "euler_step_open ops a b U dx dt left_slope right_slope params =
     (case rhs_vectorised_open ops a b U dx params of
        Inl e \<Rightarrow> Inl e
      | Inr R \<Rightarrow> enforce_bcs (arr_add U (scal_mul dt R)) dx left_slope right_slope)"

lemma roll_minus_one: "r \<noteq> [] \<Longrightarrow> roll (- 1) r = tl r @ [hd r]"
proof (cases r)
  case Nil
  then show "r \<noteq> [] \<Longrightarrow> ?thesis" by simp
next
  case (Cons x xs)
  show ?thesis
  proof (cases xs)
    case Nil
    then show ?thesis using Cons by (simp add: roll_def)
  next
    case (Cons y ys)
    have "(1::int) mod int (length r) = 1" using \<open>r = x # xs\<close> Cons by simp
    then show ?thesis using \<open>r = x # xs\<close> by (simp add: roll_def)
  qed
qed

lemma roll_one: "r \<noteq> [] \<Longrightarrow> roll 1 r = last r # butlast r"
proof -
  assume ne: "r \<noteq> []"
  have "(- 1) mod int (length r) = int (length r) - 1"
    using ne by (simp add: zmod_minus1)
  then have n: "nat ((- 1) mod int (length r)) = length (butlast r)"
    by simp
  have "rotate (length (butlast r)) (butlast r @ [last r]) = [last r] @ butlast r"
    by (rule rotate_append)
  then show ?thesis using ne by (simp add: roll_def n)
qed

text \<open>The stencil of the source is the open one with the wrapped entries as values.\<close>

lemma rhs_row_periodic:
  "r \<noteq> [] \<Longrightarrow> rhs_row ops dx lam r = rhs_row_open ops dx lam (last r) (hd r) r"
  by (simp add: rhs_row_def rhs_row_open_def roll_minus_one roll_one)

lemma length_rhs_row_open [simp]: "length (rhs_row_open ops dx lam a b r) = length r"
  by (simp add: rhs_row_open_def Let_def)

lemma nth_rhs_row_open:
  assumes "0 < j" "j < length r - 1"
  shows "rhs_row_open ops dx lam a b r ! j =
           ((r ! (j + 1) - lit_two ops * r ! j) + r ! (j - 1)) / dx
             + lam * exp_f ops (r ! j)"
proof -
  have ne: "r \<noteq> []" using assms by auto
  have l: "(tl r @ [b]) ! j = r ! (j + 1)"
    using assms by (simp add: nth_append nth_tl)
  have rr: "(a # butlast r) ! j = r ! (j - 1)"
    using assms by (simp add: nth_Cons' nth_butlast)
  show ?thesis
    using assms ne by (simp add: rhs_row_open_def Let_def l rr)
qed

lemma rhs_row_open_inner:
  assumes "0 < j" "j < length r - 1"
  shows "rhs_row_open ops dx lam a b r ! j = rhs_row_open ops dx lam a' b' r ! j"
  by (simp add: nth_rhs_row_open[OF assms])

lemma nth_arr_add:
  "shape A n m \<Longrightarrow> shape B n m \<Longrightarrow> k < n \<Longrightarrow> j < m \<Longrightarrow>
   arr_add A B ! k ! j = A ! k ! j + B ! k ! j"
  by (simp add: shape_def arr_add_def)

lemma nth_scal_mul:
  "shape A n m \<Longrightarrow> k < n \<Longrightarrow> j < m \<Longrightarrow> scal_mul c A ! k ! j = c * A ! k ! j"
  by (simp add: shape_def scal_mul_def)

lemma open_fill_core:
  assumes r: "rect U" and ok: "3 \<le> n_micro_of U \<or> n_teeth_of U \<le> 2"
  shows "enforce_bcs (arr_add U (scal_mul dt (map (rhs_row_open ops d lam a b) U))) dx ls rs =
         enforce_bcs (arr_add U (scal_mul dt (map (rhs_row_open ops d lam a' b') U))) dx ls rs"
proof -
  let ?n = "length U" and ?m = "n_micro_of U"
  let ?R = "map (rhs_row_open ops d lam a b) U"
  let ?R' = "map (rhs_row_open ops d lam a' b') U"
  have s: "shape U ?n ?m" by (rule rect_shape[OF r])
  have sR: "shape ?R ?n ?m" and sR': "shape ?R' ?n ?m"
    using s by (simp_all add: shape_def)
  have sV: "shape (arr_add U (scal_mul dt ?R)) ?n ?m"
    and sW: "shape (arr_add U (scal_mul dt ?R')) ?n ?m"
    by (intro shape_arr_add shape_scal_mul s sR sR')+
  show ?thesis
  proof (rule enforce_bcs_cong[OF sV sW])
    show "3 \<le> ?m \<or> ?n \<le> 2" using ok by (simp add: n_teeth_of_def)
  next
    fix k j assume k: "k < ?n" and j0: "0 < j" and j1: "j < ?m - 1"
    have j: "j < ?m" using j1 by simp
    have lk: "length (U ! k) = ?m" using s k by (simp add: shape_def)
    have "?R ! k ! j = ?R' ! k ! j"
      using k rhs_row_open_inner[of j "U ! k" ops d lam a b a' b'] j0 j1 lk by simp
    then show "arr_add U (scal_mul dt ?R) ! k ! j = arr_add U (scal_mul dt ?R') ! k ! j"
      by (simp add: nth_arr_add[OF s shape_scal_mul[OF sR] k j]
          nth_arr_add[OF s shape_scal_mul[OF sR'] k j]
          nth_scal_mul[OF sR k j] nth_scal_mul[OF sR' k j])
  qed
qed

lemma periodic_open_core:
  assumes r: "rect U" and ok: "3 \<le> n_micro_of U \<or> n_teeth_of U \<le> 2"
  shows "enforce_bcs (arr_add U (scal_mul dt (map (rhs_row ops d lam) U))) dx ls rs =
         enforce_bcs (arr_add U (scal_mul dt (map (rhs_row_open ops d lam a b) U))) dx ls rs"
proof -
  let ?n = "length U" and ?m = "n_micro_of U"
  let ?R = "map (rhs_row ops d lam) U"
  let ?R' = "map (rhs_row_open ops d lam a b) U"
  have s: "shape U ?n ?m" by (rule rect_shape[OF r])
  have sR: "shape ?R ?n ?m" and sR': "shape ?R' ?n ?m"
    using s by (simp_all add: shape_def)
  have sV: "shape (arr_add U (scal_mul dt ?R)) ?n ?m"
    and sW: "shape (arr_add U (scal_mul dt ?R')) ?n ?m"
    by (intro shape_arr_add shape_scal_mul s sR sR')+
  show ?thesis
  proof (rule enforce_bcs_cong[OF sV sW])
    show "3 \<le> ?m \<or> ?n \<le> 2" using ok by (simp add: n_teeth_of_def)
  next
    fix k j assume k: "k < ?n" and j0: "0 < j" and j1: "j < ?m - 1"
    have j: "j < ?m" using j1 by simp
    have lk: "length (U ! k) = ?m" using s k by (simp add: shape_def)
    have ne: "U ! k \<noteq> []" using lk j by auto
    have "rhs_row ops d lam (U ! k) ! j = rhs_row_open ops d lam a b (U ! k) ! j"
      unfolding rhs_row_periodic[OF ne]
      using j0 j1 lk by (intro rhs_row_open_inner) simp_all
    then have "?R ! k ! j = ?R' ! k ! j" using k by simp
    then show "arr_add U (scal_mul dt ?R) ! k ! j = arr_add U (scal_mul dt ?R') ! k ! j"
      by (simp add: nth_arr_add[OF s shape_scal_mul[OF sR] k j]
          nth_arr_add[OF s shape_scal_mul[OF sR'] k j]
          nth_scal_mul[OF sR k j] nth_scal_mul[OF sR' k j])
  qed
qed

lemma euler_step_open_fill:
  assumes r: "rect U" and ok: "3 \<le> n_micro_of U \<or> n_teeth_of U \<le> 2"
  shows "euler_step_open ops a b U dx dt ls rs params =
         euler_step_open ops a' b' U dx dt ls rs params"
proof (cases "sqr ops dx")
  case (Inl e)
  then show ?thesis by (simp add: euler_step_open_def rhs_vectorised_open_def)
next
  case d: (Inr d)
  show ?thesis
  proof (cases "params ''lambda''")
    case None
    then show ?thesis by (simp add: euler_step_open_def rhs_vectorised_open_def d)
  next
    case (Some lam)
    then show ?thesis
      using open_fill_core[OF r ok, of dt ops d lam a b dx ls rs a' b']
      by (simp add: euler_step_open_def rhs_vectorised_open_def d)
  qed
qed

text \<open>
  Claim C5 (amended). For a rectangular PatchSet with at least three micro points per
  patch, or with at most two patches, \<^verbatim>\<open>euler_step\<close> returns the same result (array or
  error) as the variant with the non-periodic stencil, whatever values \<open>a\<close> and \<open>b\<close>
  stand beyond the ends of a patch: the entries that the wraparound produces at the micro
  indices \<open>0\<close> and \<open>n_micro - 1\<close> do not reach the returned array.
\<close>

theorem wraparound_not_observed:
  assumes r: "rect U" and ok: "3 \<le> n_micro_of U \<or> n_teeth_of U \<le> 2"
  shows "euler_step ops U dx dt ls rs params =
         euler_step_open ops a b U dx dt ls rs params"
proof (cases "sqr ops dx")
  case (Inl e)
  then show ?thesis
    by (simp add: euler_step_def euler_step_open_def rhs_vectorised_def rhs_vectorised_open_def)
next
  case d: (Inr d)
  show ?thesis
  proof (cases "params ''lambda''")
    case None
    then show ?thesis
      by (simp add: euler_step_def euler_step_open_def rhs_vectorised_def
          rhs_vectorised_open_def d)
  next
    case (Some lam)
    then show ?thesis
      using periodic_open_core[OF r ok, of dt ops d lam dx ls rs a b]
      by (simp add: euler_step_def euler_step_open_def rhs_vectorised_def
          rhs_vectorised_open_def d)
  qed
qed

text \<open>
  Three patches of two points. The left edge of the inner patch is computed from column
  1, which is the last column: there the periodic stencil has read the wrapped entry.
\<close>

lemma rhs_bump3x2:
  "rhs_vectorised real_ops [[0, 0], [1, 0], [0, 0]] 1 (Map.empty(''lambda'' \<mapsto> 0)) =
     Inr [[0, 0], [- 2, 2], [0, 0]]"
  by (simp add: rhs_vectorised_def rhs_row_def roll_def real_ops_simps eval_nat_numeral)

lemma rhs_open_bump3x2:
  "rhs_vectorised_open real_ops 0 0 [[0, 0], [1, 0], [0, 0]] 1 (Map.empty(''lambda'' \<mapsto> 0)) =
     Inr [[0, 0], [- 2, 1], [0, 0]]"
  by (simp add: rhs_vectorised_open_def rhs_row_open_def real_ops_simps)

lemma euler_step_bump3x2:
  "euler_step real_ops [[0, 0], [1, 0], [0, 0]] 1 1 [0, 0, 0] [0, 0, 0]
     (Map.empty(''lambda'' \<mapsto> 0)) = Inr [[0, 0], [2, 2], [0, 0]]"
  by (simp add: euler_step_def rhs_bump3x2 arr_add_def scal_mul_def bcs_eval)

lemma euler_step_open_bump3x2:
  "euler_step_open real_ops 0 0 [[0, 0], [1, 0], [0, 0]] 1 1 [0, 0, 0] [0, 0, 0]
     (Map.empty(''lambda'' \<mapsto> 0)) = Inr [[0, 0], [1, 1], [0, 0]]"
  by (simp add: euler_step_open_def rhs_open_bump3x2 arr_add_def scal_mul_def bcs_eval)

theorem wraparound_counterexample:
  "2 \<le> n_micro_of [[0, 0], [1, 0], [0, 0::real]] \<and>
   rect [[0, 0], [1, 0], [0, 0::real]] \<and>
   euler_step real_ops [[0, 0], [1, 0], [0, 0]] 1 1 [0, 0, 0] [0, 0, 0]
     (Map.empty(''lambda'' \<mapsto> 0)) \<noteq>
   euler_step_open real_ops 0 0 [[0, 0], [1, 0], [0, 0]] 1 1 [0, 0, 0] [0, 0, 0]
     (Map.empty(''lambda'' \<mapsto> 0))"
  by (simp add: euler_step_bump3x2 euler_step_open_bump3x2 n_micro_of_def rect_def)

theorem wraparound_not_observed_witness:
  "rect [[0, 0, 0], [0, 1, 0], [0, 0, 0::real]] \<and>
   (3 \<le> n_micro_of [[0, 0, 0], [0, 1, 0], [0, 0, 0::real]] \<or>
    n_teeth_of [[0, 0, 0], [0, 1, 0], [0, 0, 0::real]] \<le> 2) \<and>
   euler_step_open real_ops 0 0 [[0, 0, 0], [0, 1, 0], [0, 0, 0]] 1 1 [0, 1, 0] [0, 2, 0]
     (Map.empty(''lambda'' \<mapsto> 0)) = Inr [[0, 0, 0], [- 2, - 1, 1], [0, 0, 0]]"
proof -
  have r: "rect [[0, 0, 0], [0, 1, 0], [0, 0, 0::real]]"
    by (simp add: rect_def n_micro_of_def)
  have ok: "3 \<le> n_micro_of [[0, 0, 0], [0, 1, 0], [0, 0, 0::real]] \<or>
    n_teeth_of [[0, 0, 0], [0, 1, 0], [0, 0, 0::real]] \<le> 2"
    by (simp add: n_micro_of_def)
  show ?thesis
    using wraparound_not_observed[OF r ok, of real_ops 1 1 "[0, 1, 0]" "[0, 2, 0]"
        "Map.empty(''lambda'' \<mapsto> 0)" 0 0] r ok euler_step_3x3
    by simp
qed

subsection \<open>Imposing the boundary conditions twice\<close>

lemma enforce_bcs_idem:
  assumes V: "shape V n m" and e: "enforce_bcs V dx ls rs = Inr F"
    and ok: "3 \<le> m \<or> n \<le> 2"
  shows "enforce_bcs F dx ls rs = Inr F"
proof -
  have sF: "shape F n m" by (rule enforce_bcs_shape[OF V e])
  note dv = enforce_bcs_dirichlet_values[OF V e]
  have DF: "dirichlet F ! k ! j = dirichlet V ! k ! j"
    if "k < n" "j < m"
      "(\<not> (k < n - 1 \<and> j = m - 1) \<and> \<not> (0 < k \<and> j = 0) \<and> F ! k ! j = dirichlet V ! k ! j)
        \<or> (k = 0 \<and> j = 0) \<or> (k = n - 1 \<and> j = m - 1)" for k j
    using that(3) nth_dirichlet[OF V that(1,2)] nth_dirichlet[OF sF that(1,2)] by auto
  consider "n = 1" | "1 < n" using dv(1) by arith
  then show ?thesis
  proof cases
    case 1
    have F: "F = dirichlet V" using e 1 dv(2) by (simp add: enforce_bcs_unfold[OF V])
    have "dirichlet F = F"
    proof (rule shape_ext[OF shape_dirichlet[OF sF] sF])
      fix k j assume k: "k < n" and j: "j < m"
      show "dirichlet F ! k ! j = F ! k ! j"
        using nth_dirichlet[OF sF k j] nth_dirichlet[OF V k j] by (simp add: F)
    qed
    then show ?thesis using 1 dv(2) by (simp add: enforce_bcs_unfold[OF sF])
  next
    case 2
    have m2: "2 \<le> m" using e 2 by (auto simp: enforce_bcs_unfold[OF V] split: if_splits)
    from e 2 m2 obtain lsb rsb where
      bl: "broadcast_to (n - 1) (map (\<lambda>s. s * dx) (drop 1 ls)) = Inr lsb" and
      br: "broadcast_to (n - 1) (map (\<lambda>s. s * dx) (butlast rs)) = Inr rsb" and
      F: "F = neumann_right (neumann_left (dirichlet V) lsb) rsb"
      by (auto simp: enforce_bcs_unfold[OF V] split: sum.splits)
    have ll: "length lsb = n - 1" and lr: "length rsb = n - 1"
      using broadcast_to_length[OF bl] broadcast_to_length[OF br] by simp_all
    have Fv: "F ! k ! j =
      (if k < n - 1 \<and> j = m - 1
       then (if 0 < k \<and> m = 2 then dirichlet V ! k ! 1 - lsb ! (k - 1)
             else dirichlet V ! k ! (m - 2)) + rsb ! k
       else if 0 < k \<and> j = 0 then dirichlet V ! k ! 1 - lsb ! (k - 1)
       else dirichlet V ! k ! j)" if "k < n" "j < m" for k j
      unfolding F by (rule nth_bcs_multi[OF V ll lr that m2])
    have "neumann_right (neumann_left (dirichlet F) lsb) rsb = F"
    proof (rule shape_ext[OF _ sF])
      show "shape (neumann_right (neumann_left (dirichlet F) lsb) rsb) n m"
        by (intro shape_neumann_right shape_neumann_left shape_dirichlet sF ll lr)
    next
      fix k j assume k: "k < n" and j: "j < m"
      have one: "1 < m" and m2': "m - 2 < m" using m2 by arith+
      have a1: "\<not> (0 < k \<and> k < n - 1 \<and> m = 2)" using ok by arith
      have a2: "dirichlet F ! k ! (m - 2) = dirichlet V ! k ! (m - 2)" if "\<not> (0 < k \<and> m = 2)"
      proof (rule DF[OF k m2'])
        have n1: "\<not> (k < n - 1 \<and> m - 2 = m - 1)" and n2: "\<not> (0 < k \<and> m - 2 = 0)"
          using that m2 by arith+
        have "F ! k ! (m - 2) = dirichlet V ! k ! (m - 2)"
          by (simp only: Fv[OF k m2'] n1 n2 if_False)
        then show "(\<not> (k < n - 1 \<and> m - 2 = m - 1) \<and> \<not> (0 < k \<and> m - 2 = 0) \<and>
            F ! k ! (m - 2) = dirichlet V ! k ! (m - 2))
          \<or> (k = 0 \<and> m - 2 = 0) \<or> (k = n - 1 \<and> m - 2 = m - 1)"
          using n1 n2 by blast
      qed
      have b: "dirichlet F ! k ! 1 = dirichlet V ! k ! 1" if "0 < k"
      proof (rule DF[OF k one])
        have n1: "\<not> (k < n - 1 \<and> 1 = m - 1)" and n2: "\<not> (0 < k \<and> (1::nat) = 0)"
          using that ok k by arith+
        have "F ! k ! 1 = dirichlet V ! k ! 1"
          by (simp only: Fv[OF k one] n1 n2 if_False)
        then show "(\<not> (k < n - 1 \<and> 1 = m - 1) \<and> \<not> (0 < k \<and> (1::nat) = 0) \<and>
            F ! k ! 1 = dirichlet V ! k ! 1)
          \<or> (k = 0 \<and> (1::nat) = 0) \<or> (k = n - 1 \<and> 1 = m - 1)"
          using n1 n2 by blast
      qed
      have c: "dirichlet F ! k ! j = dirichlet V ! k ! j"
        if "\<not> (k < n - 1 \<and> j = m - 1)" "\<not> (0 < k \<and> j = 0)"
      proof (rule DF[OF k j])
        have "F ! k ! j = dirichlet V ! k ! j"
          by (simp only: Fv[OF k j] that if_False)
        then show "(\<not> (k < n - 1 \<and> j = m - 1) \<and> \<not> (0 < k \<and> j = 0) \<and>
            F ! k ! j = dirichlet V ! k ! j) \<or> (k = 0 \<and> j = 0) \<or> (k = n - 1 \<and> j = m - 1)"
          using that by blast
      qed
      show "neumann_right (neumann_left (dirichlet F) lsb) rsb ! k ! j = F ! k ! j"
        unfolding nth_bcs_multi[OF sF ll lr k j m2] Fv[OF k j]
        using a1 a2 b c by auto
    qed
    then show ?thesis using 2 m2 bl br by (simp add: enforce_bcs_unfold[OF sF])
  qed
qed

lemma extrapolate_identity:
  assumes "shape A n m" "shape B n m" "\<And>l p. l + c * ((l - p) / dt) = l"
  shows "extrapolate c dt A B = A"
proof (rule shape_ext[OF _ assms(1)])
  show "shape (extrapolate c dt A B) n m"
    using assms(1,2) by (simp add: extrapolate_def shape_def)
next
  fix k j assume "k < n" "j < m"
  then show "extrapolate c dt A B ! k ! j = A ! k ! j"
    using assms by (simp add: extrapolate_def shape_def)
qed

lemma cycle_is_step:
  assumes r: "rect U" and ok: "3 \<le> n_micro_of U \<or> n_teeth_of U \<le> 2"
    and k: "from_int ops 1 = Inr k"
    and van: "\<And>l p. l + (Dt - k * dt) * ((l - p) / dt) = l"
  shows "projective_microcycle ops U dx dt Dt 1 ls rs params =
         euler_step ops U dx dt ls rs params"
proof (cases "euler_step ops U dx dt ls rs params")
  case (Inl e)
  then show ?thesis by (simp add: projective_microcycle_def)
next
  case (Inr E)
  let ?n = "length U" and ?m = "n_micro_of U"
  have s: "shape U ?n ?m" by (rule rect_shape[OF r])
  have sE: "shape E ?n ?m" by (rule euler_step_shape[OF s Inr])
  from step_result_is_bcs[OF r disjI1[OF Inr]] obtain V where
    V: "shape V ?n ?m" and e: "enforce_bcs V dx ls rs = Inr E"
    by blast
  have ok': "3 \<le> ?m \<or> ?n \<le> 2" using ok by (simp add: n_teeth_of_def)
  have idem: "enforce_bcs E dx ls rs = Inr E" by (rule enforce_bcs_idem[OF V e ok'])
  have ex: "extrapolate (Dt - k * dt) dt E U = E"
    by (rule extrapolate_identity[OF sE s van])
  show ?thesis
    using Inr idem ex
    by (simp add: projective_microcycle_def extrapolate_arrays k)
qed

text \<open>
  Claim C6 (amended). In exact real arithmetic, for a rectangular PatchSet with at least
  three micro points per patch, or with at most two patches, and \<open>dt \<noteq> 0\<close>:
  \<^verbatim>\<open>projective_microcycle\<close> with \<open>K = 1\<close> and \<open>Dt = dt\<close> returns what a single
  \<^verbatim>\<open>euler_step\<close> returns, array or error. (At \<open>dt = 0\<close> the division of the source by
  \<open>dt\<close> is not the division of the reals.)
\<close>

theorem cycle_K1_is_euler_step:
  assumes "rect U" and "3 \<le> n_micro_of U \<or> n_teeth_of U \<le> 2" and "dt \<noteq> 0"
  shows "projective_microcycle real_ops U dx dt dt 1 ls rs params =
         euler_step real_ops U dx dt ls rs params"
  by (rule cycle_is_step[OF assms(1,2), where k=1]) (simp_all add: real_ops_simps)

text \<open>
  On three patches of two points the boundary conditions are not idempotent: imposed
  again, the left edge of the inner patch is computed from the right edge that the first
  pass has set.
\<close>

lemma bcs_again3x2:
  "enforce_bcs [[0, 0], [- 1, - 1], [0, 0::real]] 1 [0, 1, 0] [0, 0, 0] =
     Inr [[0, 0], [- 2, - 2], [0, 0]]"
  by (simp add: bcs_eval)

lemma cycle_zero3x2:
  "projective_microcycle real_ops [[0, 0], [0, 0], [0, 0]] 1 1 1 1 [0, 1, 0] [0, 0, 0]
     (Map.empty(''lambda'' \<mapsto> 0)) = Inr [[0, 0], [- 2, - 2], [0, 0]]"
proof -
  have c: "from_int real_ops 1 = Inr (1::real)" by (simp add: real_ops_simps)
  show ?thesis
    by (simp add: projective_microcycle_def euler_step_zero3x2 c arr_sub_def arr_div_scal_def
        scal_mul_def arr_add_def bcs_again3x2)
qed

theorem cycle_K1_counterexample:
  "projective_microcycle real_ops [[0, 0], [0, 0], [0, 0]] 1 1 1 1 [0, 1, 0] [0, 0, 0]
     (Map.empty(''lambda'' \<mapsto> 0)) \<noteq>
   euler_step real_ops [[0, 0], [0, 0], [0, 0]] 1 1 [0, 1, 0] [0, 0, 0]
     (Map.empty(''lambda'' \<mapsto> 0))"
  by (simp add: cycle_zero3x2 euler_step_zero3x2)

theorem cycle_K1_is_euler_step_witness:
  "rect [[0, 0, 0], [0, 1, 0], [0, 0, 0::real]] \<and>
   (3 \<le> n_micro_of [[0, 0, 0], [0, 1, 0], [0, 0, 0::real]] \<or>
    n_teeth_of [[0, 0, 0], [0, 1, 0], [0, 0, 0::real]] \<le> 2) \<and>
   (1::real) \<noteq> 0 \<and>
   projective_microcycle real_ops [[0, 0, 0], [0, 1, 0], [0, 0, 0]] 1 1 1 1 [0, 1, 0] [0, 2, 0]
     (Map.empty(''lambda'' \<mapsto> 0)) = Inr [[0, 0, 0], [- 2, - 1, 1], [0, 0, 0]]"
proof -
  have r: "rect [[0, 0, 0], [0, 1, 0], [0, 0, 0::real]]"
    by (simp add: rect_def n_micro_of_def)
  have ok: "3 \<le> n_micro_of [[0, 0, 0], [0, 1, 0], [0, 0, 0::real]] \<or>
    n_teeth_of [[0, 0, 0], [0, 1, 0], [0, 0, 0::real]] \<le> 2"
    by (simp add: n_micro_of_def)
  have dt: "(1::real) \<noteq> 0" by simp
  show ?thesis
    using cycle_K1_is_euler_step[OF r ok dt, of 1 "[0, 1, 0]" "[0, 2, 0]"
        "Map.empty(''lambda'' \<mapsto> 0)"] r ok euler_step_3x3
    by simp
qed

subsection \<open>The conversions between the two representations\<close>

lemma broadcast_to_exact: "length vs = n \<Longrightarrow> broadcast_to n vs = Inr vs"
  by (simp add: broadcast_to_def)

lemma assign_patches_uniform:
  assumes "\<forall>p\<in>set ps. length p = len" "length u = (i + length ps) * len"
  shows "assign_patches len i ps u = Inr (take (i * len) u @ concat ps)"
  using assms
proof (induction ps arbitrary: i u)
  case Nil
  then show ?case by simp
next
  case (Cons p ps)
  have lp: "length p = len" using Cons.prems(1) by simp
  let ?u = "take (i * len) u @ p @ drop (Suc i * len) u"
  have lu: "length u = i * len + len + length ps * len"
    using Cons.prems(2) by (simp add: algebra_simps)
  have lu': "length ?u = (Suc i + length ps) * len"
    using lu lp by (simp add: algebra_simps)
  have t: "take (Suc i * len) ?u = take (i * len) u @ p"
    using lu lp by simp
  have "assign_patches len i (p # ps) u = assign_patches len (Suc i) ps ?u"
    by (simp add: broadcast_to_exact[OF lp])
  also have "\<dots> = Inr (take (Suc i * len) ?u @ concat ps)"
    by (rule Cons.IH) (use Cons.prems(1) lu' in simp_all)
  finally show ?case by (simp only: t) simp
qed

lemma toNumpyArray_uniform:
  assumes "P \<noteq> []" "\<forall>p\<in>set P. length p = length (hd P)"
  shows "toNumpyArray P = Inr (concat P)"
proof -
  obtain p0 ps where P: "P = p0 # ps" using assms(1) by (cases P) auto
  have "assign_patches (length p0) 0 P (replicate (length P * length p0) 0) =
        Inr (take (0 * length p0) (replicate (length P * length p0) 0) @ concat P)"
    by (rule assign_patches_uniform) (use assms(2) P in simp_all)
  then show ?thesis using P by (simp add: toNumpyArray_def)
qed

lemma slice_concat_uniform:
  assumes "\<forall>p\<in>set P. length p = len" "i < length P"
  shows "take len (drop (i * len) (concat P)) = P ! i"
  using assms
proof (induction P arbitrary: i)
  case Nil
  then show ?case by simp
next
  case (Cons p P)
  show ?case
  proof (cases i)
    case 0
    then show ?thesis using Cons.prems by simp
  next
    case (Suc i')
    then show ?thesis using Cons.prems Cons.IH[of i'] by simp
  qed
qed

lemma toPatch_concat_uniform:
  assumes "P \<noteq> []" "\<forall>p\<in>set P. length p = length (hd P)"
    "length x_plot_array = length P" "length (hd x_plot_array) = length (hd P)"
  shows "toPatch x_plot_array (concat P) = Inr P"
proof -
  obtain x0 xs where x: "x_plot_array = x0 # xs" using assms(1,3) by (cases x_plot_array) auto
  have l0: "length x0 = length (hd P)" using assms(4) x by simp
  have "map (\<lambda>i. take (length (hd P)) (drop (i * length (hd P)) (concat P))) [0..<length P] = P"
    by (rule nth_equalityI) (simp_all add: slice_concat_uniform[OF assms(2)])
  then show ?thesis using x l0 assms(3) by (simp add: toPatch_def)
qed

text \<open>
  Claim C9. For a non-empty list \<open>P\<close> of patches of one length and a coordinate list of
  as many patches of that length, \<^verbatim>\<open>toPatch(x_plot_array, toNumpyArray(P))\<close> returns
  \<open>P\<close>. (On the empty list \<^verbatim>\<open>u_patch[0]\<close> raises \<^verbatim>\<open>IndexError\<close>: there is no patch
  length to speak of.)
\<close>

theorem patch_roundtrip:
  assumes "P \<noteq> []" and "list_all (\<lambda>p. length p = length (hd P)) P"
    and "length x_plot_array = length P"
    and "list_all (\<lambda>x. length x = length (hd P)) x_plot_array"
  shows "after_ok (toNumpyArray P) (toPatch x_plot_array) = Inr P"
proof -
  have u: "\<forall>p\<in>set P. length p = length (hd P)" using assms(2) by (simp add: list_all_iff)
  have "x_plot_array \<noteq> []" using assms(1,3) by auto
  then have h: "length (hd x_plot_array) = length (hd P)"
    using assms(4) by (cases x_plot_array) simp_all
  show ?thesis
    by (simp add: toNumpyArray_uniform[OF assms(1) u]
        toPatch_concat_uniform[OF assms(1) u assms(3) h])
qed

lemma toNumpyArray_example: "toNumpyArray [[1, 2], [3, 4::real]] = Inr [1, 2, 3, 4]"
  by (simp add: toNumpyArray_def broadcast_to_def)

theorem patch_roundtrip_witness:
  "[[1, 2], [3, 4::real]] \<noteq> [] \<and>
   list_all (\<lambda>p. length p = length (hd [[1, 2], [3, 4::real]])) [[1, 2], [3, 4]] \<and>
   length [[0, 1], [2, 3::real]] = length [[1, 2], [3, 4::real]] \<and>
   list_all (\<lambda>x. length x = length (hd [[1, 2], [3, 4::real]])) [[0, 1], [2, 3::real]] \<and>
   toNumpyArray [[1, 2], [3, 4::real]] = Inr [1, 2, 3, 4] \<and>
   toPatch [[0, 1], [2, 3::real]] [1, 2, 3, 4::real] = Inr [[1, 2], [3, 4]]"
  using patch_roundtrip[of "[[1, 2], [3, 4::real]]" "[[0, 1], [2, 3::real]]"]
  by (simp add: toNumpyArray_example)

subsection \<open>The driver keeps the shape\<close>

lemma pi_loop_shape:
  "shape U n m \<Longrightarrow> pi_loop i ops U dx dt Dt K ls rs params = (calls, Inr U') \<Longrightarrow> shape U' n m"
proof (induction i arbitrary: U calls)
  case 0
  then show ?case by simp
next
  case (Suc i)
  then show ?case
    by (auto split: sum.splits prod.splits dest: projective_microcycle_shape)
qed

lemma patch_loop_shape:
  "shape U n m \<Longrightarrow>
   patch_loop p n_PI rbf ops U x_array dx dt Dt K params = (calls, Inr U') \<Longrightarrow> shape U' n m"
proof (induction p arbitrary: U calls)
  case 0
  then show ?case by simp
next
  case (Suc p)
  then show ?case
    by (auto split: sum.splits prod.splits dest: pi_loop_shape)
qed

lemma stack_Inr: "stack P = Inr U \<Longrightarrow> U = P \<and> P \<noteq> [] \<and> shape P (length P) (length (hd P))"
  by (auto simp: stack_def shape_def list_all_length split: if_splits)

lemma map_nth_self: "length U = n \<Longrightarrow> map (\<lambda>k. U ! k) [0..<n] = U"
  by (auto intro: nth_equalityI)

lemma gaptooth_shape:
  assumes "gaptooth_PI_vectorised rbf ops P x_array dx dt Dt K T_patch T params = Inr res"
  shows "P \<noteq> [] \<and> shape P (length P) (length (hd P)) \<and> shape res (length P) (length (hd P))"
proof -
  from assms obtain U n_patch_steps n_PI_steps calls U' where
    st: "stack P = Inr U" and
    pl: "patch_loop (nat n_patch_steps) (nat n_PI_steps) rbf ops U x_array dx dt Dt K params =
           (calls, Inr U')" and
    res: "res = map (\<lambda>k. U' ! k) [0..<n_teeth_of U]"
    by (auto simp: gaptooth_PI_vectorised_def gaptooth_PI_logged_def Let_def
        split: sum.splits prod.splits)
  note s = stack_Inr[OF st]
  have s': "shape U' (length P) (length (hd P))"
    using patch_loop_shape[OF _ pl] s by simp
  have "res = U'" using res s s' by (simp add: n_teeth_of_def shape_def map_nth_self)
  then show ?thesis using s s' by simp
qed

subsection \<open>The residual map\<close>

lemma toPatch_shape:
  assumes "x_plot_array \<noteq> []" "length u0 = length x_plot_array * length (hd x_plot_array)"
  obtains P0 where "toPatch x_plot_array u0 = Inr P0"
    "shape P0 (length x_plot_array) (length (hd x_plot_array))"
proof -
  obtain x0 xs where x: "x_plot_array = x0 # xs" using assms(1) by (cases x_plot_array) auto
  let ?L = "length x0" and ?n = "length x_plot_array"
  let ?P = "map (\<lambda>i. take ?L (drop (i * ?L) u0)) [0..<?n]"
  have "length (take ?L (drop (i * ?L) u0)) = ?L" if "i < ?n" for i
  proof -
    have "Suc i * ?L \<le> ?n * ?L" using that by (intro mult_le_mono1) simp
    then have "i * ?L + ?L \<le> length u0" using assms(2) x by simp
    then have "?L \<le> length u0 - i * ?L" by arith
    then show ?thesis by (simp add: min_absorb2)
  qed
  then have "shape ?P ?n ?L" by (simp add: shape_def)
  moreover have "toPatch x_plot_array u0 = Inr ?P"
    unfolding toPatch_def x by (simp add: Let_def)
  ultimately show ?thesis using that x by simp
qed

lemma shape_uniform:
  assumes "shape A n m" "0 < n"
  shows "A \<noteq> []" "\<forall>p\<in>set A. length p = length (hd A)" "length (concat A) = n * m"
proof -
  have len: "length A = n" and r: "\<And>k. k < n \<Longrightarrow> length (A ! k) = m"
    using assms(1) by (auto simp: shape_def)
  show ne: "A \<noteq> []" using len assms(2) by auto
  have all: "\<forall>p\<in>set A. length p = m" using r len by (auto simp: in_set_conv_nth)
  then show "\<forall>p\<in>set A. length p = length (hd A)" using ne by (cases A) auto
  have "map length A = replicate n m"
    using all len by (intro nth_equalityI) simp_all
  then show "length (concat A) = n * m" by (simp add: length_concat sum_list_replicate)
qed

text \<open>
  Claim C7. For a flat vector \<open>u0\<close> of length \<open>n_teeth * n_points_per_tooth\<close> (the
  number of coordinate grids times the length of the first), \<^verbatim>\<open>psiPatch\<close> returns
  \<open>u0\<close> minus the concatenated result of \<^verbatim>\<open>gaptooth_PI_vectorised\<close> on the patch form
  of \<open>u0\<close> over the horizon \<open>T_psi\<close>, a vector of the length of \<open>u0\<close>; an error of the
  driver is the result. Every call, also one that raises, moves the closure's counter and
  the published \<^verbatim>\<open>psiPatch.count\<close> to the old count plus one.
\<close>

theorem psiPatch_residual:
  assumes "length u0 = length x_plot_array * length (hd x_plot_array)"
  shows
    "snd (psiPatch c rbf ops u0 x_plot_array dx dt Dt K T_patch T_psi params) =
       after_ok (toPatch x_plot_array u0) (\<lambda>u0_patch.
         after_ok (gaptooth_PI_vectorised rbf ops u0_patch x_plot_array dx dt Dt K T_patch T_psi
                     params)
           (\<lambda>u_new_patch. Inr (map2 (-) u0 (concat u_new_patch)))) \<and>
     (\<forall>r. snd (psiPatch c rbf ops u0 x_plot_array dx dt Dt K T_patch T_psi params) = Inr r \<longrightarrow>
        length r = length u0) \<and>
     count (fst (psiPatch c rbf ops u0 x_plot_array dx dt Dt K T_patch T_psi params)) =
       count c + 1 \<and>
     wrapper_count (fst (psiPatch c rbf ops u0 x_plot_array dx dt Dt K T_patch T_psi params)) =
       count c + 1 \<and>
     (wrapper_count c = count c \<longrightarrow>
      wrapper_count (fst (psiPatch c rbf ops u0 x_plot_array dx dt Dt K T_patch T_psi params)) =
        wrapper_count c + 1)"
proof -
  let ?body = "psiPatch_body rbf ops u0 x_plot_array dx dt Dt K T_patch T_psi params"
  let ?spec = "after_ok (toPatch x_plot_array u0) (\<lambda>u0_patch.
         after_ok (gaptooth_PI_vectorised rbf ops u0_patch x_plot_array dx dt Dt K T_patch T_psi
                     params)
           (\<lambda>u_new_patch. Inr (map2 (-) u0 (concat u_new_patch))))"
  have body: "?body = ?spec \<and> (\<forall>r. ?body = Inr r \<longrightarrow> length r = length u0)"
  proof (cases "x_plot_array = []")
    case True
    then show ?thesis by (simp add: psiPatch_body_def toPatch_def)
  next
    case False
    from toPatch_shape[OF False assms] obtain P0 where
      tp: "toPatch x_plot_array u0 = Inr P0" and
      sP: "shape P0 (length x_plot_array) (length (hd x_plot_array))"
      by blast
    have n0: "0 < length x_plot_array" using False by simp
    have lP: "length P0 = length x_plot_array" using sP by (simp add: shape_def)
    have hP: "length (hd P0) = length (hd x_plot_array)"
      using sP n0 lP by (cases P0) (auto simp: shape_def)
    show ?thesis
    proof (cases "gaptooth_PI_vectorised rbf ops P0 x_plot_array dx dt Dt K T_patch T_psi params")
      case (Inl e)
      then show ?thesis by (simp add: psiPatch_body_def tp)
    next
      case (Inr res)
      have sr: "shape res (length x_plot_array) (length (hd x_plot_array))"
        using gaptooth_shape[OF Inr] lP hP by simp
      note u = shape_uniform[OF sr n0]
      have tn: "toNumpyArray res = Inr (concat res)"
        by (rule toNumpyArray_uniform[OF u(1,2)])
      have vs: "vec_sub u0 (concat res) = Inr (map2 (-) u0 (concat res))"
        using u(3) assms by (simp add: vec_sub_def)
      show ?thesis
        using u(3) assms by (auto simp add: psiPatch_body_def tp Inr tn vs)
    qed
  qed
  show ?thesis
    using body by (simp add: psiPatch_def wrapper_def)
qed

text \<open>A run of the driver on one patch of three points: one patch step of one cycle.\<close>

lemma rhs_123:
  "rhs_vectorised real_ops [[1, 2, 3]] 1 (Map.empty(''lambda'' \<mapsto> 0)) = Inr [[3, 0, - 3]]"
  by (simp add: rhs_vectorised_def rhs_row_def roll_def real_ops_simps eval_nat_numeral)

lemma euler_step_123:
  "euler_step real_ops [[1, 2, 3]] 1 1 [0] [0] (Map.empty(''lambda'' \<mapsto> 0)) = Inr [[0, 2, 0]]"
  by (simp add: euler_step_def rhs_123 arr_add_def scal_mul_def bcs_eval)

lemma from_int_real_ops [simp]:
  "from_int real_ops 1 = Inr 1" "from_int real_ops 2 = Inr 2"
  by (simp_all add: real_ops_simps)

lemma cycle_123:
  "projective_microcycle real_ops [[1, 2, 3]] 1 1 1 1 [0] [0] (Map.empty(''lambda'' \<mapsto> 0)) =
     Inr [[0, 2, 0]]"
  by (simp add: projective_microcycle_def euler_step_123 arr_sub_def arr_div_scal_def
      scal_mul_def arr_add_def bcs_eval)

lemma step_count_1: "step_count real_ops 1 1 = Inr 1"
  by (simp add: step_count_def py_div_def real_ops_simps round_half_even_def)

lemma slopes_123:
  "spline_slopes (\<lambda>x_end u_end x. 0) [[1, 2, 3::real]] [[0, 1, 2]] = Inr ([0], [0])"
  by (simp add: spline_slopes_def n_micro_of_def)

lemma stack_123: "stack [[1, 2, 3::real]] = Inr [[1, 2, 3]]"
  by (simp add: stack_def)

lemma pi_loop_123:
  "pi_loop 1 real_ops [[1, 2, 3]] 1 1 1 1 [0] [0] (Map.empty(''lambda'' \<mapsto> 0)) =
     ([CycleCall [[1, 2, 3]] [0] [0]], Inr [[0, 2, 0]])"
  by (simp add: cycle_123)

lemma patch_loop_123:
  "patch_loop 1 1 (\<lambda>x_end u_end x. 0) real_ops [[1, 2, 3]] [[0, 1, 2]] 1 1 1 1
     (Map.empty(''lambda'' \<mapsto> 0)) =
     ([SlopesCall [[1, 2, 3]], CycleCall [[1, 2, 3]] [0] [0]], Inr [[0, 2, 0]])"
  using pi_loop_123 by (simp add: slopes_123)

lemma gaptooth_logged_123:
  "gaptooth_PI_logged (\<lambda>x_end u_end x. 0) real_ops [[1, 2, 3]] [[0, 1, 2]] 1 1 1 1 1 1
     (Map.empty(''lambda'' \<mapsto> 0)) =
     ([SlopesCall [[1, 2, 3]], CycleCall [[1, 2, 3]] [0] [0]], Inr [[0, 2, 0]])"
  using patch_loop_123
  by (simp add: gaptooth_PI_logged_def stack_123 step_count_1 n_teeth_of_def)

lemma gaptooth_123:
  "gaptooth_PI_vectorised (\<lambda>x_end u_end x. 0) real_ops [[1, 2, 3]] [[0, 1, 2]] 1 1 1 1 1 1
     (Map.empty(''lambda'' \<mapsto> 0)) = Inr [[0, 2, 0]]"
  by (simp add: gaptooth_PI_vectorised_def gaptooth_logged_123)

lemma toPatch_123: "toPatch [[0, 1, 2::real]] [1, 2, 3::real] = Inr [[1, 2, 3]]"
  by (simp add: toPatch_def)

theorem psiPatch_residual_witness:
  "length [1, 2, 3::real] = length [[0, 1, 2::real]] * length (hd [[0, 1, 2::real]]) \<and>
   snd (psiPatch eval_counter (\<lambda>x_end u_end x. 0) real_ops [1, 2, 3] [[0, 1, 2]] 1 1 1 1 1 1
          (Map.empty(''lambda'' \<mapsto> 0))) = Inr [1, 0, 3] \<and>
   wrapper_count (fst (psiPatch eval_counter (\<lambda>x_end u_end x. 0) real_ops [1, 2, 3] [[0, 1, 2]]
          1 1 1 1 1 1 (Map.empty(''lambda'' \<mapsto> 0)))) = 1"
  using psiPatch_residual[of "[1, 2, 3::real]" "[[0, 1, 2::real]]" eval_counter
      "\<lambda>x_end u_end x. 0" real_ops 1 1 1 1 1 1 "Map.empty(''lambda'' \<mapsto> 0)"]
  by (simp add: toPatch_123 gaptooth_123 eval_counter_def)

subsection \<open>The schedule of the driver\<close>

text \<open>
  The schedule in the words of the spec. \<open>cycles n\<close> is the state after \<open>n\<close> calls of
  \<^verbatim>\<open>projective_microcycle\<close> in a row, each on the result of the call before it and all
  with one slope pair. One outer iteration takes the slopes from its state and runs
  \<open>n_cycles\<close> cycles from that state with them; \<open>outer_iterations p\<close> is the state
  after \<open>p\<close> outer iterations, each on the result of the one before it.
\<close>

definition cycles ::
  "nat \<Rightarrow> 'a::{plus,minus,times,inverse,zero} float_ops \<Rightarrow> 'a arr2 \<Rightarrow> 'a \<Rightarrow> 'a \<Rightarrow> 'a \<Rightarrow> int \<Rightarrow>
     'a vec \<Rightarrow> 'a vec \<Rightarrow> 'a params \<Rightarrow> error + 'a arr2" where
  "cycles n ops U dx dt Dt K left_slope right_slope params =
     ((\<lambda>r. after_ok r (\<lambda>V. projective_microcycle ops V dx dt Dt K left_slope right_slope params))
        ^^ n) (Inr U)"

definition outer_iteration ::
  "nat \<Rightarrow> ('a list \<Rightarrow> 'a list \<Rightarrow> 'a \<Rightarrow> 'a) \<Rightarrow> 'a::{plus,minus,times,inverse,zero} float_ops \<Rightarrow>
     'a arr2 \<Rightarrow> 'a list list \<Rightarrow> 'a \<Rightarrow> 'a \<Rightarrow> 'a \<Rightarrow> int \<Rightarrow> 'a params \<Rightarrow> error + 'a arr2" where
  "outer_iteration n_cycles rbf ops U x_array dx dt Dt K params =
     after_ok (spline_slopes rbf U x_array) (\<lambda>(left_slope, right_slope).
       cycles n_cycles ops U dx dt Dt K left_slope right_slope params)"

definition outer_iterations ::
  "nat \<Rightarrow> nat \<Rightarrow> ('a list \<Rightarrow> 'a list \<Rightarrow> 'a \<Rightarrow> 'a) \<Rightarrow>
     'a::{plus,minus,times,inverse,zero} float_ops \<Rightarrow> 'a arr2 \<Rightarrow> 'a list list \<Rightarrow>
     'a \<Rightarrow> 'a \<Rightarrow> 'a \<Rightarrow> int \<Rightarrow> 'a params \<Rightarrow> error + 'a arr2" where
  "outer_iterations p n_cycles rbf ops U x_array dx dt Dt K params =
     ((\<lambda>r. after_ok r (\<lambda>V. outer_iteration n_cycles rbf ops V x_array dx dt Dt K params))
        ^^ p) (Inr U)"



lemma cycles_0 [simp]: "cycles 0 ops U dx dt Dt K ls rs params = Inr U"
  by (simp add: cycles_def)






lemma outer_iterations_0 [simp]:
  "outer_iterations 0 n rbf ops U x_array dx dt Dt K params = Inr U"
  by (simp add: outer_iterations_def)










subsection \<open>When the calls return\<close>

definition steppable :: "'a arr2 \<Rightarrow> 'a vec \<Rightarrow> 'a vec \<Rightarrow> bool" where
  "steppable U left_slope right_slope =
     (rect U \<and> 1 \<le> n_teeth_of U \<and> 1 \<le> n_micro_of U \<and>
      (n_teeth_of U = 1 \<or> 2 \<le> n_micro_of U) \<and>
      length left_slope = n_teeth_of U \<and> length right_slope = n_teeth_of U)"

lemma enforce_bcs_total:
  assumes "shape V n m" "1 \<le> n" "1 \<le> m" "n = 1 \<or> 2 \<le> m" "length ls = n" "length rs = n"
  shows "\<exists>U'. enforce_bcs V dx ls rs = Inr U'"
proof -
  have l: "broadcast_to (n - 1) (map (\<lambda>s. s * dx) (drop 1 ls)) =
             Inr (map (\<lambda>s. s * dx) (drop 1 ls))"
    by (rule broadcast_to_exact) (simp add: assms(5))
  have r: "broadcast_to (n - 1) (map (\<lambda>s. s * dx) (butlast rs)) =
             Inr (map (\<lambda>s. s * dx) (butlast rs))"
    by (rule broadcast_to_exact) (simp add: assms(6))
  show ?thesis
    unfolding enforce_bcs_unfold[OF assms(1)] l r using assms(2,3,4) by auto
qed

lemma euler_step_total:
  assumes s: "shape U n m" "1 \<le> n" "1 \<le> m" "n = 1 \<or> 2 \<le> m" "length ls = n" "length rs = n"
    and p: "params ''lambda'' \<noteq> None" and d: "sqr ops dx = Inr d"
  shows "\<exists>U'. euler_step ops U dx dt ls rs params = Inr U' \<and> shape U' n m"
proof -
  from p obtain lam where lam: "params ''lambda'' = Some lam" by auto
  let ?R = "map (rhs_row ops d lam) U"
  have R: "rhs_vectorised ops U dx params = Inr ?R" by (simp add: rhs_vectorised_def lam d)
  have sV: "shape (arr_add U (scal_mul dt ?R)) n m"
    by (intro shape_arr_add shape_scal_mul s(1) rhs_vectorised_shape[OF s(1) R])
  from enforce_bcs_total[OF sV s(2-6)] obtain U' where
    e: "enforce_bcs (arr_add U (scal_mul dt ?R)) dx ls rs = Inr U'" by blast
  have "euler_step ops U dx dt ls rs params = Inr U'" by (simp add: euler_step_def R e)
  then show ?thesis using euler_step_shape[OF s(1)] by blast
qed

lemma euler_loop_total:
  assumes "shape U n m" "1 \<le> n" "1 \<le> m" "n = 1 \<or> 2 \<le> m" "length ls = n" "length rs = n"
    "params ''lambda'' \<noteq> None" "sqr ops dx = Inr d"
  shows "\<exists>U'. euler_loop i ops U dx dt ls rs params = Inr U' \<and> shape U' n m"
  using assms(1)
proof (induction i arbitrary: U)
  case 0
  then show ?case by simp
next
  case (Suc i)
  from euler_step_total[where params=params, OF Suc.prems assms(2-8)] obtain U1 where
    "euler_step ops U dx dt ls rs params = Inr U1" "shape U1 n m" by blast
  then show ?case using Suc.IH[of U1] by simp
qed

lemma projective_microcycle_total:
  assumes "shape U n m" "1 \<le> n" "1 \<le> m" "n = 1 \<or> 2 \<le> m" "length ls = n" "length rs = n"
    "params ''lambda'' \<noteq> None" "sqr ops dx = Inr d" and k: "from_int ops K = Inr k"
  shows "\<exists>U'. projective_microcycle ops U dx dt Dt K ls rs params = Inr U' \<and> shape U' n m"
proof -
  from euler_loop_total[where params=params, OF assms(1-8)] obtain U_prev where
    a: "euler_loop (nat (K - 1)) ops U dx dt ls rs params = Inr U_prev" and sp: "shape U_prev n m"
    by blast
  from euler_step_total[where params=params, OF sp assms(2-8)] obtain U_last where
    b: "euler_step ops U_prev dx dt ls rs params = Inr U_last" and sl: "shape U_last n m"
    by blast
  let ?V = "arr_add U_last (scal_mul (Dt - k * dt)
        (arr_div_scal (arr_sub U_last U_prev) dt))"
  have sV: "shape ?V n m"
    by (intro shape_arr_add shape_scal_mul shape_arr_div_scal shape_arr_sub sp sl)
  from enforce_bcs_total[OF sV assms(2-6)] obtain U' where
    c: "enforce_bcs ?V dx ls rs = Inr U'" by blast
  have "projective_microcycle ops U dx dt Dt K ls rs params = Inr U'"
    by (simp add: projective_microcycle_def a b c k)
  then show ?thesis using projective_microcycle_shape[OF assms(1)] by blast
qed

lemma pi_loop_total:
  assumes "shape U n m" "1 \<le> n" "1 \<le> m" "n = 1 \<or> 2 \<le> m" "length ls = n" "length rs = n"
    "params ''lambda'' \<noteq> None" "sqr ops dx = Inr d" "from_int ops K = Inr k"
  shows "\<exists>calls U'. pi_loop i ops U dx dt Dt K ls rs params = (calls, Inr U') \<and> shape U' n m"
  using assms(1)
proof (induction i arbitrary: U)
  case 0
  then show ?case by simp
next
  case (Suc i)
  from projective_microcycle_total[where params=params, OF Suc.prems assms(2-9)] obtain U1 where
    c: "projective_microcycle ops U dx dt Dt K ls rs params = Inr U1" and s1: "shape U1 n m"
    by blast
  from Suc.IH[OF s1] obtain calls U' where
    "pi_loop i ops U1 dx dt Dt K ls rs params = (calls, Inr U')" "shape U' n m" by blast
  then show ?case using c by simp
qed

lemma spline_slopes_total:
  assumes "shape U n m" "1 \<le> m" "length x_array = n" "list_all (\<lambda>x. x \<noteq> []) x_array"
  shows "\<exists>ls rs. spline_slopes rbf U x_array = Inr (ls, rs) \<and> length ls = n \<and> length rs = n"
proof -
  have len: "length U = n" using assms(1) by (simp add: shape_def)
  have m: "n_micro_of U = m" if "0 < n" using shape_n_micro[OF assms(1) that] .
  have "\<not> list_ex (\<lambda>k. x_array ! k = [] \<or> length U \<le> k \<or> n_micro_of U = 0) [0..<length x_array]"
    using assms(2,3,4) len m by (auto simp: list_ex_iff list_all_length)
  then show ?thesis using assms(3) by (simp add: spline_slopes_def Let_def)
qed

lemma patch_loop_total:
  assumes "shape U n m" "1 \<le> n" "1 \<le> m" "n = 1 \<or> 2 \<le> m"
    "params ''lambda'' \<noteq> None" "length x_array = n" "list_all (\<lambda>x. x \<noteq> []) x_array"
    "sqr ops dx = Inr d" "from_int ops K = Inr k"
  shows "\<exists>calls U'. patch_loop p n_PI rbf ops U x_array dx dt Dt K params = (calls, Inr U')"
  using assms(1)
proof (induction p arbitrary: U)
  case 0
  then show ?case by simp
next
  case (Suc p)
  from spline_slopes_total[OF Suc.prems assms(3,6,7)] obtain ls rs where
    s: "spline_slopes rbf U x_array = Inr (ls, rs)" and l: "length ls = n" "length rs = n"
    by blast
  from pi_loop_total[where params=params, OF Suc.prems assms(2-4) l assms(5,8,9)]
  obtain calls1 U1 where
    i: "pi_loop n_PI ops U dx dt Dt K ls rs params = (calls1, Inr U1)" and s1: "shape U1 n m"
    by blast
  from Suc.IH[OF s1] obtain calls2 U' where
    "patch_loop p n_PI rbf ops U1 x_array dx dt Dt K params = (calls2, Inr U')" by blast
  then show ?case using s i by simp
qed

lemma gaptooth_total:
  assumes "steppable U ls rs" "params ''lambda'' \<noteq> None"
    "length x_array = n_teeth_of U" "list_all (\<lambda>x. x \<noteq> []) x_array"
    "sqr ops dx = Inr d" "from_int ops K = Inr k"
    "step_count ops T T_patch = Inr n_patch_steps" "step_count ops T_patch Dt = Inr n_PI_steps"
  shows "\<exists>res. gaptooth_PI_vectorised rbf ops U x_array dx dt Dt K T_patch T params = Inr res"
proof -
  let ?n = "length U" and ?m = "n_micro_of U"
  have r: "rect U" and n: "1 \<le> ?n" and m: "1 \<le> ?m" and nm: "?n = 1 \<or> 2 \<le> ?m"
    using assms(1) by (simp_all add: steppable_def n_teeth_of_def)
  have s: "shape U ?n ?m" by (rule rect_shape[OF r])
  have ne: "U \<noteq> []" using n by auto
  have hd: "length (hd U) = ?m" using ne by (cases U) (simp_all add: n_micro_of_def)
  have st: "stack U = Inr U"
    using ne r hd by (simp add: stack_def rect_def)
  from patch_loop_total[where params=params, OF s n m nm assms(2) assms(3)[unfolded n_teeth_of_def]
      assms(4,5,6)]
  obtain calls U' where
    "patch_loop (nat n_patch_steps) (nat n_PI_steps) rbf ops U x_array dx dt Dt K params =
       (calls, Inr U')"
    by blast
  then show ?thesis
    by (simp add: gaptooth_PI_vectorised_def gaptooth_PI_logged_def st assms(7,8))
qed

lemma step_count_Inr:
  "y \<noteq> 0 \<Longrightarrow> round_to_int ops (x / y) = Inr n \<Longrightarrow> step_count ops x y = Inr n"
  by (simp add: step_count_def py_div_def)

text \<open>
  Claim C8 (amended). Neither function compares \<open>Dt\<close> with \<open>K dt\<close>, and for
  \<open>Dt < K dt\<close> they return under the conditions under which they return at all.
  The scalars are the reals with their arithmetic; the primitives of the floats that can
  raise are arbitrary, and the conditions say that they do not: \<^verbatim>\<open>dx**2\<close> is in
  range and the int \<open>K\<close> converts to a float \<open>k\<close>. Neither \<open>dt\<close> nor
  \<^verbatim>\<open>dx**2\<close> is \<open>0\<close>, so that the divisions of the arrays are those of the
  reals (numpy divides by zero without raising, with an infinity or a nan as value).
  Then, on a PatchSet on which the micro step is defined (rectangular, not empty, at
  least two points per patch when there are several patches, one slope per patch,
  \<^verbatim>\<open>'lambda'\<close> among the parameters), \<^verbatim>\<open>projective_microcycle\<close> returns an array: the
  extrapolation from the last two micro states with the negative coefficient
  \<open>Dt - k dt\<close>, with the boundary conditions imposed. \<^verbatim>\<open>gaptooth_PI_vectorised\<close> on
  such patches and non-empty coordinate grids, one per patch, returns a result as well,
  provided \<open>T_patch \<noteq> 0\<close> and \<open>Dt \<noteq> 0\<close>, since it divides the floats by both,
  and provided the two rounded quotients are ints (the conversion raises on an overflowed
  quotient). The interpolant \<open>rbf\<close> is taken to return.
\<close>

theorem backward_extrapolation_silent:
  fixes ops :: "real float_ops"
  assumes "from_int ops K = Inr k" and "Dt < k * dt"
    and "sqr ops dx = Inr d"
    and "steppable U ls rs" and "params ''lambda'' \<noteq> None"
    and "length x_array = n_teeth_of U" and "list_all (\<lambda>x. x \<noteq> []) x_array"
    and "T_patch \<noteq> 0" and "round_to_int ops (T / T_patch) = Inr n_patch_steps"
    and "Dt \<noteq> 0" and "round_to_int ops (T_patch / Dt) = Inr n_PI_cycles"
    and "dt \<noteq> 0" and "d \<noteq> 0"
  shows
    "(\<exists>U_prev U_last U'.
        micro_steps (nat (K - 1)) ops U dx dt ls rs params = Inr U_prev \<and>
        euler_step ops U_prev dx dt ls rs params = Inr U_last \<and>
        Dt - k * dt < 0 \<and>
        enforce_bcs (extrapolate (Dt - k * dt) dt U_last U_prev) dx ls rs = Inr U' \<and>
        projective_microcycle ops U dx dt Dt K ls rs params = Inr U') \<and>
     (\<exists>res. gaptooth_PI_vectorised rbf ops U x_array dx dt Dt K T_patch T params = Inr res)"
proof -
  let ?n = "length U" and ?m = "n_micro_of U"
  have r: "rect U" and n: "1 \<le> ?n" and m: "1 \<le> ?m" and nm: "?n = 1 \<or> 2 \<le> ?m"
    and l: "length ls = ?n" "length rs = ?n"
    using assms(4) by (simp_all add: steppable_def n_teeth_of_def)
  have s: "shape U ?n ?m" by (rule rect_shape[OF r])
  from projective_microcycle_total[where params=params, OF s n m nm l assms(5,3,1)] obtain U' where
    c: "projective_microcycle ops U dx dt Dt K ls rs params = Inr U'"
    by blast
  from projective_microcycle_final[OF c] obtain U_prev U_last k' where
    a: "euler_loop (nat (K - 1)) ops U dx dt ls rs params = Inr U_prev" and
    b: "euler_step ops U_prev dx dt ls rs params = Inr U_last" and
    e: "enforce_bcs (arr_add U_last (scal_mul (Dt - k' * dt)
        (arr_div_scal (arr_sub U_last U_prev) dt))) dx ls rs = Inr U'" and
    k': "from_int ops K = Inr k'"
    by blast
  have kk: "k' = k" using k' assms(1) by simp
  have a': "micro_steps (nat (K - 1)) ops U dx dt ls rs params = Inr U_prev"
    using a by (simp add: euler_loop_micro_steps)
  have e': "enforce_bcs (extrapolate (Dt - k * dt) dt U_last U_prev) dx ls rs = Inr U'"
    using e by (simp add: extrapolate_arrays kk)
  have neg: "Dt - k * dt < 0" using assms(2) by simp
  have c1: "step_count ops T T_patch = Inr n_patch_steps"
    by (rule step_count_Inr[OF assms(8,9)])
  have c2: "step_count ops T_patch Dt = Inr n_PI_cycles"
    by (rule step_count_Inr[OF assms(10,11)])
  have "\<exists>res. gaptooth_PI_vectorised rbf ops U x_array dx dt Dt K T_patch T params = Inr res"
    by (rule gaptooth_total[where params=params, OF assms(4-7) assms(3,1) c1 c2])
  then show ?thesis using a' b neg e' c by blast
qed

text \<open>At \<open>Dt = 0 < K dt\<close> the driver raises: \<^verbatim>\<open>T_patch / Dt\<close> divides by zero.\<close>

lemma step_count_zero: "step_count real_ops 1 0 = Inl ZeroDivisionError"
  by (simp add: step_count_def py_div_def)

theorem backward_extrapolation_counterexample:
  "(0::real) < real_of_int 1 * 1 \<and>
   gaptooth_PI_vectorised (\<lambda>x_end u_end x. 0) real_ops [[1, 2, 3]] [[0, 1, 2]] 1 1 0 1 1 1
     (Map.empty(''lambda'' \<mapsto> 0)) = Inl ZeroDivisionError"
  by (simp add: gaptooth_PI_vectorised_def gaptooth_PI_logged_def stack_123 step_count_1
      step_count_zero)

text \<open>One patch of three points, \<open>K = 2\<close>, \<open>dt = 1\<close>, \<open>Dt = 1 < K dt\<close>.\<close>

lemma rhs_020:
  "rhs_vectorised real_ops [[0, 2, 0]] 1 (Map.empty(''lambda'' \<mapsto> 0)) = Inr [[2, - 4, 2]]"
  by (simp add: rhs_vectorised_def rhs_row_def roll_def real_ops_simps eval_nat_numeral)

lemma euler_step_020:
  "euler_step real_ops [[0, 2, 0]] 1 1 [0] [0] (Map.empty(''lambda'' \<mapsto> 0)) = Inr [[0, - 2, 0]]"
  by (simp add: euler_step_def rhs_020 arr_add_def scal_mul_def bcs_eval)

lemma cycle_K2_123:
  "projective_microcycle real_ops [[1, 2, 3]] 1 1 1 2 [0] [0] (Map.empty(''lambda'' \<mapsto> 0)) =
     Inr [[0, 2, 0]]"
  by (simp add: projective_microcycle_def euler_step_123 euler_step_020 arr_sub_def
      arr_div_scal_def scal_mul_def arr_add_def bcs_eval)

theorem backward_extrapolation_silent_witness:
  "from_int real_ops 2 = Inr (2::real) \<and> (1::real) < 2 * 1 \<and>
   sqr real_ops 1 = Inr (1::real) \<and>
   steppable [[1, 2, 3::real]] [0] [0] \<and>
   (Map.empty(''lambda'' \<mapsto> 0::real)) ''lambda'' \<noteq> None \<and>
   length [[0, 1, 2::real]] = n_teeth_of [[1, 2, 3::real]] \<and>
   list_all (\<lambda>x. x \<noteq> []) [[0, 1, 2::real]] \<and> (1::real) \<noteq> 0 \<and>
   round_to_int real_ops (1 / 1) = Inr 1 \<and>
   micro_steps (nat (2 - 1)) real_ops [[1, 2, 3]] 1 1 [0] [0] (Map.empty(''lambda'' \<mapsto> 0)) =
     Inr [[0, 2, 0]] \<and>
   euler_step real_ops [[0, 2, 0]] 1 1 [0] [0] (Map.empty(''lambda'' \<mapsto> 0)) =
     Inr [[0, - 2, 0]] \<and>
   (1::real) - 2 * 1 < 0 \<and>
   projective_microcycle real_ops [[1, 2, 3]] 1 1 1 2 [0] [0] (Map.empty(''lambda'' \<mapsto> 0)) =
     Inr [[0, 2, 0]] \<and>
   (\<exists>res. gaptooth_PI_vectorised (\<lambda>x_end u_end x. 0) real_ops [[1, 2, 3]] [[0, 1, 2]]
            1 1 1 2 1 1 (Map.empty(''lambda'' \<mapsto> 0)) = Inr res)"
proof -
  have k: "from_int real_ops 2 = Inr (2::real)" by simp
  have v: "(1::real) < 2 * 1" by simp
  have d: "sqr real_ops 1 = Inr (1::real)" by (simp add: real_ops_simps)
  have w: "steppable [[1, 2, 3::real]] [0] [0]"
    by (simp add: steppable_def rect_def n_micro_of_def n_teeth_of_def)
  have p: "(Map.empty(''lambda'' \<mapsto> 0::real)) ''lambda'' \<noteq> None" by simp
  have x: "length [[0, 1, 2::real]] = n_teeth_of [[1, 2, 3::real]]"
    "list_all (\<lambda>x. x \<noteq> []) [[0, 1, 2::real]]"
    by (simp_all add: n_teeth_of_def)
  have t: "(1::real) \<noteq> 0" by simp
  have c: "round_to_int real_ops (1 / 1) = Inr 1"
    by (simp add: real_ops_simps round_half_even_def)
  from backward_extrapolation_silent[where params="Map.empty(''lambda'' \<mapsto> 0::real)"
      and rbf="\<lambda>x_end u_end x. 0", OF k v d w p x t c t c t t]
  have "\<exists>res. gaptooth_PI_vectorised (\<lambda>x_end u_end x. 0) real_ops [[1, 2, 3]] [[0, 1, 2]]
            1 1 1 2 1 1 (Map.empty(''lambda'' \<mapsto> 0)) = Inr res"
    by blast
  moreover have "micro_steps (nat (2 - 1)) real_ops [[1, 2, 3]] 1 1 [0] [0]
      (Map.empty(''lambda'' \<mapsto> 0)) = Inr [[0, 2, 0]]"
    using euler_step_123 by (simp add: micro_steps_def)
  ultimately show ?thesis using k v d w p x t c cycle_K2_123 euler_step_020 by simp
qed

subsection \<open>What the driver writes\<close>

text \<open>
  \<open>kept n0 h h'\<close>: from \<open>h\<close> to \<open>h'\<close> the store has grown, and no object below
  \<open>n0\<close> has changed. \<open>post m E Q\<close>: the computation \<open>m\<close> ends in a store with \<open>E\<close>,
  and with \<open>Q\<close> when it returns a value.
\<close>

definition kept :: "addr \<Rightarrow> 'a heap \<Rightarrow> 'a heap \<Rightarrow> bool" where
  "kept n0 h h' = (next_addr h \<le> next_addr h' \<and> (\<forall>a<n0. objs h' a = objs h a))"

definition post :: "'h \<times> (error + 'b) \<Rightarrow> ('h \<Rightarrow> bool) \<Rightarrow> ('h \<Rightarrow> 'b \<Rightarrow> bool) \<Rightarrow> bool" where
  "post m E Q = (E (fst m) \<and> (\<forall>x. snd m = Inr x \<longrightarrow> Q (fst m) x))"

lemma kept_refl: "kept n0 h h"
  by (simp add: kept_def)

lemma kept_trans: "kept n0 h h1 \<Longrightarrow> kept n0 h1 h2 \<Longrightarrow> kept n0 h h2"
  by (auto simp: kept_def)

lemma kept_put: "n0 \<le> r \<Longrightarrow> kept n0 h (h_put h r ob)"
  by (auto simp: kept_def h_put_def)

lemma next_addr_put [simp]: "next_addr (h_put h r ob) = next_addr h"
  by (simp add: h_put_def)

lemma h_alloc_eq:
  "h_alloc h ob = (h', r) \<longleftrightarrow>
     (h' = h\<lparr> objs := (objs h)(next_addr h \<mapsto> ob), next_addr := Suc (next_addr h) \<rparr> \<and>
      r = next_addr h)"
  by (auto simp: h_alloc_def)

lemma kept_alloc: "n0 \<le> next_addr h \<Longrightarrow> kept n0 h (fst (h_alloc h ob))"
  by (auto simp: kept_def h_alloc_def)

lemma alloc_facts:
  "snd (h_alloc h ob) = next_addr h"
  "next_addr (fst (h_alloc h ob)) = Suc (next_addr h)"
  "objs (fst (h_alloc h ob)) (next_addr h) = Some ob"
  by (simp_all add: h_alloc_def)

lemma postI: "E (fst m) \<Longrightarrow> (\<And>x. snd m = Inr x \<Longrightarrow> Q (fst m) x) \<Longrightarrow> post m E Q"
  by (simp add: post_def)

lemma post_weaken:
  "post m E Q \<Longrightarrow> (\<And>h. E h \<Longrightarrow> E' h) \<Longrightarrow> (\<And>h x. E h \<Longrightarrow> Q h x \<Longrightarrow> Q' h x) \<Longrightarrow> post m E' Q'"
  by (auto simp: post_def)

lemma post_then:
  assumes "post m E Q" "\<And>h1 x. E h1 \<Longrightarrow> Q h1 x \<Longrightarrow> post (f h1 x) E' R"
    "\<And>h1. E h1 \<Longrightarrow> E' h1"
  shows "post (h_then m f) E' R"
proof (cases m)
  case (Pair h1 res)
  show ?thesis
  proof (cases res)
    case (Inl e)
    then show ?thesis using assms(1,3) Pair by (simp add: h_then_def post_def)
  next
    case (Inr x)
    then show ?thesis using assms(1,2) Pair by (simp add: h_then_def post_def)
  qed
qed

lemma post_read:
  assumes "E h" "\<And>x. v = Inr x \<Longrightarrow> post (f x) E R"
  shows "post (h_read h v f) E R"
  using assms by (cases v) (simp_all add: h_read_def post_def)

lemma post_then_kept:
  assumes "post m (kept n0 h) Q"
    "\<And>h1 x. kept n0 h h1 \<Longrightarrow> Q h1 x \<Longrightarrow> post (f h1 x) (kept n0 h1) R"
  shows "post (h_then m f) (kept n0 h) R"
proof (rule post_then[OF assms(1)])
  fix h1 x assume s: "kept n0 h h1" and q: "Q h1 x"
  show "post (f h1 x) (kept n0 h) R"
    by (rule post_weaken[OF assms(2)[OF s q]]) (auto intro: kept_trans[OF s])
qed simp

lemma post_enforce_bcs:
  assumes "n0 \<le> r"
  shows "post (h_enforce_bcs h r dx ls rs) (\<lambda>h'. kept n0 h h' \<and> next_addr h' = next_addr h)
           (\<lambda>h' u. True)"
proof -
  have p: "kept n0 h (h_put (h_put (h_put (h_put h r a) r b) r c) r d)"
    "kept n0 h (h_put (h_put (h_put h r a) r b) r c)"
    "kept n0 h (h_put (h_put h r a) r b)" for a b c d
    using assms by (auto simp: kept_def h_put_def)
  show ?thesis
    unfolding post_def h_enforce_bcs_def Let_def
    by (auto simp: p kept_refl split: sum.splits)
qed

lemma case_alloc:
  "(case h_alloc h ob of (h1, r) \<Rightarrow> g h1 r) = g (fst (h_alloc h ob)) (next_addr h)"
  by (simp add: h_alloc_def)

lemma kept_next: "kept n0 h h' \<Longrightarrow> n0 \<le> next_addr h \<Longrightarrow> n0 \<le> next_addr h'"
  by (simp add: kept_def)

lemma kept_mono: "kept n1 h h' \<Longrightarrow> n0 \<le> n1 \<Longrightarrow> kept n0 h h'"
  by (simp add: kept_def)

lemma kept_get2: "kept n0 h h' \<Longrightarrow> r < n0 \<Longrightarrow> h_get2 h' r = h_get2 h r"
  by (simp add: kept_def h_get2_def)

lemma get2_alloc_old: "r < next_addr h \<Longrightarrow> h_get2 (fst (h_alloc h ob)) r = h_get2 h r"
  by (simp add: h_alloc_def h_get2_def)

lemma get2_alloc_new: "h_get2 (fst (h_alloc h (Arr2 U))) (next_addr h) = Inr U"
  by (simp add: h_alloc_def h_get2_def)

lemma get2_put: "h_get2 (h_put h r (Arr2 U)) r = Inr U"
  by (simp add: h_put_def h_get2_def)

text \<open>Sequencing when every later step keeps all that is allocated by then.\<close>

lemma post_then_full:
  assumes "post m (kept n0 h) Q" "n0 \<le> next_addr h"
    "\<And>h1 x. kept n0 h h1 \<Longrightarrow> Q h1 x \<Longrightarrow> post (f h1 x) (kept (next_addr h1) h1) R"
  shows "post (h_then m f) (kept n0 h) R"
proof (rule post_then[OF assms(1)])
  fix h1 x assume s: "kept n0 h h1" and q: "Q h1 x"
  have n: "n0 \<le> next_addr h1" by (rule kept_next[OF s assms(2)])
  show "post (f h1 x) (kept n0 h) R"
    by (rule post_weaken[OF assms(3)[OF s q]])
      (auto intro: kept_trans[OF s] kept_mono[OF _ n])
qed simp

definition holds :: "'a heap \<Rightarrow> addr \<Rightarrow> error + 'a arr2 \<Rightarrow> bool" where
  "holds h r v = (\<exists>U. v = Inr U \<and> r < next_addr h \<and> h_get2 h r = Inr U)"

lemma post_enforce_bcs_value:
  assumes "n0 \<le> r" "h_get2 h r = Inr U"
  shows "post (h_enforce_bcs h r dx ls rs) (\<lambda>h'. kept n0 h h' \<and> next_addr h' = next_addr h)
           (\<lambda>h' u. \<exists>U'. enforce_bcs U dx ls rs = Inr U' \<and> h_get2 h' r = Inr U')"
proof -
  have p: "kept n0 h (h_put (h_put (h_put (h_put h r a) r b) r c) r d)"
    "kept n0 h (h_put (h_put (h_put h r a) r b) r c)"
    "kept n0 h (h_put (h_put h r a) r b)" for a b c d
    using assms(1) by (auto simp: kept_def h_put_def)
  show ?thesis
    unfolding post_def h_enforce_bcs_def enforce_bcs_def Let_def assms(2)
    by (auto simp: p kept_refl get2_put split: sum.splits)
qed

lemma post_euler_step_value:
  assumes "n0 \<le> next_addr h" "h_get2 h r = Inr U"
  shows "post (h_euler_step ops h r dx dt ls rs params) (kept n0 h)
           (\<lambda>h' r'. holds h' r' (euler_step ops U dx dt ls rs params))"
  unfolding h_euler_step_def case_alloc assms(2)
proof (intro post_read kept_refl)
  fix U0 R assume U0: "Inr U = Inr U0" and R: "rhs_vectorised ops U0 dx params = Inr R"
  let ?V = "arr_add U0 (scal_mul dt R)"
  let ?h1 = "fst (h_alloc h (Arr2 ?V))"
  have s1: "kept n0 h ?h1" by (rule kept_alloc[OF assms(1)])
  have n1: "next_addr ?h1 = Suc (next_addr h)" by (rule alloc_facts(2))
  have e: "euler_step ops U dx dt ls rs params = enforce_bcs ?V dx ls rs"
    using U0 R by (simp add: euler_step_def)
  show "post (h_then (h_enforce_bcs ?h1 (next_addr h) dx ls rs) (\<lambda>h2 _. (h2, Inr (next_addr h))))
          (kept n0 h) (\<lambda>h' r'. holds h' r' (euler_step ops U dx dt ls rs params))"
  proof (rule post_then[OF post_enforce_bcs_value[OF assms(1) get2_alloc_new]])
    fix h2 and x :: unit
    assume "kept n0 ?h1 h2 \<and> next_addr h2 = next_addr ?h1"
      and "\<exists>U'. enforce_bcs ?V dx ls rs = Inr U' \<and> h_get2 h2 (next_addr h) = Inr U'"
    then show "post (h2, Inr (next_addr h)) (kept n0 h)
        (\<lambda>h' r'. holds h' r' (euler_step ops U dx dt ls rs params))"
      using kept_trans[OF s1] n1 e by (auto simp: post_def holds_def)
  next
    fix h2 assume "kept n0 ?h1 h2 \<and> next_addr h2 = next_addr ?h1"
    then show "kept n0 h h2" using kept_trans[OF s1] by blast
  qed
qed

lemma post_euler_loop_value:
  assumes "n0 \<le> next_addr h" "r < next_addr h" "h_get2 h r = Inr U"
  shows "post (h_euler_loop n ops h r dx dt ls rs params) (kept n0 h)
           (\<lambda>h' r'. holds h' r' (euler_loop n ops U dx dt ls rs params))"
  using assms
proof (induction n arbitrary: h r U n0)
  case 0
  then show ?case by (simp add: post_def kept_refl holds_def)
next
  case (Suc n)
  show ?case
    unfolding h_euler_loop.simps
  proof (rule post_then_full[OF post_euler_step_value[OF Suc.prems(1,3)] Suc.prems(1)])
    fix h1 r1
    assume x: "holds h1 r1 (euler_step ops U dx dt ls rs params)"
    then obtain U1 where U1: "euler_step ops U dx dt ls rs params = Inr U1"
      "r1 < next_addr h1" "h_get2 h1 r1 = Inr U1"
      by (auto simp: holds_def)
    show "post (h_euler_loop n ops h1 r1 dx dt ls rs params) (kept (next_addr h1) h1)
           (\<lambda>h' r'. holds h' r' (euler_loop (Suc n) ops U dx dt ls rs params))"
      using Suc.IH[OF order_refl U1(2,3)] by (simp add: U1(1))
  qed
qed

lemma h_read_Inr: "h_read h (Inr x) f = f x"
  by (simp add: h_read_def)

lemma post_projective_microcycle_value:
  assumes n0: "n0 \<le> next_addr h" and r: "r < next_addr h" and U: "h_get2 h r = Inr U"
  shows "post (h_projective_microcycle ops h r dx dt Dt K ls rs params) (kept n0 h)
           (\<lambda>h' r'. holds h' r' (projective_microcycle ops U dx dt Dt K ls rs params))"
  unfolding h_projective_microcycle_def case_alloc
proof (rule post_then_full[OF post_euler_loop_value[OF n0 r U] n0])
  fix h1 r1
  assume "holds h1 r1 (euler_loop (nat (K - 1)) ops U dx dt ls rs params)"
  then obtain U1 where U1: "euler_loop (nat (K - 1)) ops U dx dt ls rs params = Inr U1"
    "r1 < next_addr h1" "h_get2 h1 r1 = Inr U1"
    by (auto simp: holds_def)
  let ?Q = "\<lambda>h' r'. holds h' r' (projective_microcycle ops U dx dt Dt K ls rs params)"
  let ?h2 = "fst (h_alloc h1 (Arr2 U1))"
  have s2: "kept (next_addr h1) h1 ?h2" by (rule kept_alloc[OF order_refl])
  have n2: "next_addr ?h2 = Suc (next_addr h1)" by (rule alloc_facts(2))
  have g2: "h_get2 ?h2 r1 = Inr U1" using U1(2,3) by (simp add: get2_alloc_old)
  have p2: "h_get2 ?h2 (next_addr h1) = Inr U1" by (rule get2_alloc_new)
  let ?rest = "\<lambda>h3 r2.
          h_read h3 (h_get2 h3 r2) (\<lambda>U'.
          h_read h3 (h_get2 h3 (next_addr h1)) (\<lambda>Up.
          h_read (fst (h_alloc h3 (Arr2 (arr_div_scal (arr_sub U' Up) dt))))
            (h_get2 (fst (h_alloc h3 (Arr2 (arr_div_scal (arr_sub U' Up) dt)))) (next_addr h3))
            (\<lambda>D.
          h_read (fst (h_alloc h3 (Arr2 (arr_div_scal (arr_sub U' Up) dt)))) (from_int ops K)
            (\<lambda>k.
          h_then (h_enforce_bcs
              (fst (h_alloc (fst (h_alloc h3 (Arr2 (arr_div_scal (arr_sub U' Up) dt))))
                 (Arr2 (arr_add U' (scal_mul (Dt - k * dt) D)))))
              (next_addr (fst (h_alloc h3 (Arr2 (arr_div_scal (arr_sub U' Up) dt))))) dx ls rs)
            (\<lambda>h6 _. (h6, Inr (next_addr
                 (fst (h_alloc h3 (Arr2 (arr_div_scal (arr_sub U' Up) dt)))))))))))"
  have main: "post (h_then (h_euler_step ops ?h2 r1 dx dt ls rs params) ?rest)
        (kept (next_addr ?h2) ?h2) ?Q"
  proof (rule post_then_full[OF post_euler_step_value[OF order_refl g2] order_refl])
    fix h3 r2
    assume s3: "kept (next_addr ?h2) ?h2 h3"
      and "holds h3 r2 (euler_step ops U1 dx dt ls rs params)"
    then obtain U2 where U2: "euler_step ops U1 dx dt ls rs params = Inr U2"
      "r2 < next_addr h3" "h_get2 h3 r2 = Inr U2"
      by (auto simp: holds_def)
    have p3: "h_get2 h3 (next_addr h1) = Inr U1"
      using kept_get2[OF s3, of "next_addr h1"] p2 n2 by simp
    let ?du = "arr_div_scal (arr_sub U2 U1) dt"
    let ?h4 = "fst (h_alloc h3 (Arr2 ?du))"
    have s4: "kept (next_addr h3) h3 ?h4" by (rule kept_alloc[OF order_refl])
    have n4: "next_addr ?h4 = Suc (next_addr h3)" by (rule alloc_facts(2))
    have g4: "h_get2 ?h4 (next_addr h3) = Inr ?du" by (rule get2_alloc_new)
    have last: "post (h_then (h_enforce_bcs
                   (fst (h_alloc ?h4 (Arr2 (arr_add U2 (scal_mul (Dt - k * dt) ?du)))))
                   (next_addr ?h4) dx ls rs)
                 (\<lambda>h6 _. (h6, Inr (next_addr ?h4))))
               (kept (next_addr h3) h3) ?Q"
      if k: "from_int ops K = Inr k" for k
    proof -
      let ?V = "arr_add U2 (scal_mul (Dt - k * dt) ?du)"
      let ?h5 = "fst (h_alloc ?h4 (Arr2 ?V))"
      have s5: "kept (next_addr h3) ?h4 ?h5" by (rule kept_alloc) (simp add: n4)
      have n5: "next_addr ?h5 = Suc (next_addr ?h4)" by (rule alloc_facts(2))
      have g5: "h_get2 ?h5 (next_addr ?h4) = Inr ?V" by (rule get2_alloc_new)
      have pm: "projective_microcycle ops U dx dt Dt K ls rs params = enforce_bcs ?V dx ls rs"
        by (simp add: projective_microcycle_def U1(1) U2(1) k)
      show ?thesis
      proof (rule post_then[OF post_enforce_bcs_value[OF _ g5, of "next_addr h3"]])
        show "next_addr h3 \<le> next_addr ?h4" by (simp add: n4)
      next
        fix h6 and x :: unit
        assume "kept (next_addr h3) ?h5 h6 \<and> next_addr h6 = next_addr ?h5"
          and "\<exists>U'. enforce_bcs ?V dx ls rs = Inr U' \<and> h_get2 h6 (next_addr ?h4) = Inr U'"
        then show "post (h6, Inr (next_addr ?h4)) (kept (next_addr h3) h3) ?Q"
          using kept_trans[OF kept_trans[OF s4 s5]] n5 pm by (auto simp: post_def holds_def)
      next
        fix h6 assume "kept (next_addr h3) ?h5 h6 \<and> next_addr h6 = next_addr ?h5"
        then show "kept (next_addr h3) h3 h6"
          using kept_trans[OF kept_trans[OF s4 s5]] by blast
      qed
    qed
    have rd: "post (h_read ?h4 (from_int ops K) (\<lambda>k.
                 h_then (h_enforce_bcs
                   (fst (h_alloc ?h4 (Arr2 (arr_add U2 (scal_mul (Dt - k * dt) ?du)))))
                   (next_addr ?h4) dx ls rs)
                 (\<lambda>h6 _. (h6, Inr (next_addr ?h4)))))
               (kept (next_addr h3) h3) ?Q"
    proof (rule post_read)
      show "kept (next_addr h3) h3 ?h4" by (rule s4)
    next
      fix k assume "from_int ops K = Inr k"
      then show "post (h_then (h_enforce_bcs
                   (fst (h_alloc ?h4 (Arr2 (arr_add U2 (scal_mul (Dt - k * dt) ?du)))))
                   (next_addr ?h4) dx ls rs)
                 (\<lambda>h6 _. (h6, Inr (next_addr ?h4))))
               (kept (next_addr h3) h3) ?Q"
        by (rule last)
    qed
    show "post (?rest h3 r2) (kept (next_addr h3) h3) ?Q"
      using rd by (simp add: U2(3) p3 g4 h_read_Inr)
  qed
  show "post (h_read h1 (h_get2 h1 r1) (\<lambda>U.
          h_then (h_euler_step ops (fst (h_alloc h1 (Arr2 U))) r1 dx dt ls rs params) ?rest))
        (kept (next_addr h1) h1) ?Q"
    unfolding U1(3) h_read_Inr
  proof (rule post_weaken[OF main])
    fix h' assume "kept (next_addr ?h2) ?h2 h'"
    then have "kept (next_addr h1) ?h2 h'" by (rule kept_mono) (simp add: n2)
    then show "kept (next_addr h1) h1 h'" by (rule kept_trans[OF s2])
  qed simp
qed

lemma snd_pi_loop_Suc:
  "snd (pi_loop (Suc i) ops U dx dt Dt K ls rs params) =
     (case projective_microcycle ops U dx dt Dt K ls rs params of
        Inl e \<Rightarrow> Inl e
      | Inr U' \<Rightarrow> snd (pi_loop i ops U' dx dt Dt K ls rs params))"
  by (simp split: sum.splits prod.splits)

lemma snd_patch_loop_Suc:
  "snd (patch_loop (Suc p) n_PI rbf ops U x_array dx dt Dt K params) =
     (case spline_slopes rbf U x_array of
        Inl e \<Rightarrow> Inl e
      | Inr (ls, rs) \<Rightarrow>
          (case snd (pi_loop n_PI ops U dx dt Dt K ls rs params) of
             Inl e \<Rightarrow> Inl e
           | Inr U' \<Rightarrow> snd (patch_loop p n_PI rbf ops U' x_array dx dt Dt K params)))"
  by (auto split: sum.splits prod.splits)

lemma post_pi_loop_value:
  assumes "n0 \<le> next_addr h" "r < next_addr h" "h_get2 h r = Inr U"
  shows "post (h_pi_loop i ops h r dx dt Dt K ls rs params) (kept n0 h)
           (\<lambda>h' r'. holds h' r' (snd (pi_loop i ops U dx dt Dt K ls rs params)))"
  using assms
proof (induction i arbitrary: h r U n0)
  case 0
  then show ?case by (simp add: post_def kept_refl holds_def)
next
  case (Suc i)
  show ?case
    unfolding h_pi_loop.simps
  proof (rule post_then_full[OF post_projective_microcycle_value[OF Suc.prems] Suc.prems(1)])
    fix h1 r1
    assume "holds h1 r1 (projective_microcycle ops U dx dt Dt K ls rs params)"
    then obtain U1 where U1: "projective_microcycle ops U dx dt Dt K ls rs params = Inr U1"
      "r1 < next_addr h1" "h_get2 h1 r1 = Inr U1"
      by (auto simp: holds_def)
    show "post (h_pi_loop i ops h1 r1 dx dt Dt K ls rs params) (kept (next_addr h1) h1)
           (\<lambda>h' r'. holds h' r' (snd (pi_loop (Suc i) ops U dx dt Dt K ls rs params)))"
      using Suc.IH[OF order_refl U1(2,3)] by (simp only: snd_pi_loop_Suc U1(1) sum.case)
  qed
qed

lemma post_patch_loop_value:
  assumes "n0 \<le> next_addr h" "r < next_addr h" "h_get2 h r = Inr U"
  shows "post (h_patch_loop p n_PI rbf ops h r x_array dx dt Dt K params) (kept n0 h)
           (\<lambda>h' r'. holds h' r' (snd (patch_loop p n_PI rbf ops U x_array dx dt Dt K params)))"
  using assms
proof (induction p arbitrary: h r U n0)
  case 0
  then show ?case by (simp add: post_def kept_refl holds_def)
next
  case (Suc p)
  show ?case
    unfolding h_patch_loop.simps Suc.prems(3) h_read_Inr
  proof (rule post_read)
    show "kept n0 h h" by (rule kept_refl)
  next
    fix sl assume sl: "spline_slopes rbf U x_array = Inr sl"
    obtain ls rs where lr: "sl = (ls, rs)" by (cases sl)
    show "post (case sl of (left_slope, right_slope) \<Rightarrow>
            h_then (h_pi_loop n_PI ops h r dx dt Dt K left_slope right_slope params) (\<lambda>h1 r1.
              h_patch_loop p n_PI rbf ops h1 r1 x_array dx dt Dt K params))
          (kept n0 h)
          (\<lambda>h' r'. holds h' r'
              (snd (patch_loop (Suc p) n_PI rbf ops U x_array dx dt Dt K params)))"
      unfolding lr prod.case
    proof (rule post_then_full[OF post_pi_loop_value[OF Suc.prems] Suc.prems(1)])
      fix h1 r1
      assume "holds h1 r1 (snd (pi_loop n_PI ops U dx dt Dt K ls rs params))"
      then obtain U1 where U1: "snd (pi_loop n_PI ops U dx dt Dt K ls rs params) = Inr U1"
        "r1 < next_addr h1" "h_get2 h1 r1 = Inr U1"
        by (auto simp: holds_def)
      show "post (h_patch_loop p n_PI rbf ops h1 r1 x_array dx dt Dt K params)
             (kept (next_addr h1) h1)
             (\<lambda>h' r'. holds h' r'
                (snd (patch_loop (Suc p) n_PI rbf ops U x_array dx dt Dt K params)))"
        using Suc.IH[OF order_refl U1(2,3)]
        by (simp only: snd_patch_loop_Suc sl lr U1(1) sum.case prod.case)
    qed
  qed
qed

lemma post_stack_value:
  assumes "n0 \<le> next_addr h"
  shows "post (h_stack h refs) (kept n0 h)
           (\<lambda>h' r'. \<exists>P. h_get1_all h refs = Inr P \<and> holds h' r' (stack P))"
  unfolding h_stack_def case_alloc
proof (intro post_read kept_refl)
  fix P U assume P: "h_get1_all h refs = Inr P" and U: "stack P = Inr U"
  show "post (fst (h_alloc h (Arr2 U)), Inr (next_addr h)) (kept n0 h)
          (\<lambda>h' r'. \<exists>P. h_get1_all h refs = Inr P \<and> holds h' r' (stack P))"
    using kept_alloc[OF assms] P U
    by (simp add: post_def holds_def alloc_facts get2_alloc_new)
qed

text \<open>A store in which no address from \<open>next_addr\<close> on is in use.\<close>

definition heap_ok :: "'a heap \<Rightarrow> bool" where
  "heap_ok h = (\<forall>a. next_addr h \<le> a \<longrightarrow> objs h a = None)"

lemma kept_get1: "kept n0 h h' \<Longrightarrow> r < n0 \<Longrightarrow> h_get1 h' r = h_get1 h r"
  by (simp add: kept_def h_get1_def)

lemma get1_alloc_new: "h_get1 (fst (h_alloc h (Arr1 v))) (next_addr h) = Inr v"
  by (simp add: h_alloc_def h_get1_def)

lemma get1_allocated:
  assumes "h_get1 h r = Inr v" "heap_ok h"
  shows "r < next_addr h"
proof (rule ccontr)
  assume "\<not> r < next_addr h"
  then have "objs h r = None" using assms(2) by (simp add: heap_ok_def)
  then have "h_get1 h r = Inl TypeError" by (simp add: h_get1_def)
  then show False using assms(1) by simp
qed

lemma get1_all_allocated:
  "h_get1_all h refs = Inr P \<Longrightarrow> heap_ok h \<Longrightarrow> r \<in> set refs \<Longrightarrow> r < next_addr h"
proof (induction refs arbitrary: P)
  case Nil
  then show ?case by simp
next
  case (Cons a refs)
  show ?case
  proof (cases "h_get1 h a")
    case (Inl e)
    then show ?thesis using Cons.prems(1) by simp
  next
    case v: (Inr v)
    show ?thesis
    proof (cases "h_get1_all h refs")
      case (Inl e)
      then show ?thesis using Cons.prems(1) v by simp
    next
      case (Inr vs)
      show ?thesis
      proof (cases "r = a")
        case True
        then show ?thesis using get1_allocated[OF v Cons.prems(2)] by simp
      next
        case False
        then have "r \<in> set refs" using Cons.prems(3) by simp
        then show ?thesis by (rule Cons.IH[OF Inr Cons.prems(2)])
      qed
    qed
  qed
qed

lemma post_copy_rows:
  assumes "r < next_addr h" "h_get2 h r = Inr U"
  shows "post (h_copy_rows h r ks) (kept (next_addr h) h)
           (\<lambda>h' cs. length cs = length ks \<and> distinct cs \<and>
              (\<forall>c\<in>set cs. next_addr h \<le> c \<and> c < next_addr h') \<and>
              (\<forall>i<length ks. h_get1 h' (cs ! i) = Inr (U ! (ks ! i))))"
  using assms
proof (induction ks arbitrary: h)
  case Nil
  then show ?case by (simp add: post_def kept_refl)
next
  case (Cons k ks)
  let ?h1 = "fst (h_alloc h (Arr1 (U ! k)))"
  let ?c = "next_addr h"
  let ?Q = "\<lambda>h' cs. length cs = length (k # ks) \<and> distinct cs \<and>
              (\<forall>c\<in>set cs. next_addr h \<le> c \<and> c < next_addr h') \<and>
              (\<forall>i<length (k # ks). h_get1 h' (cs ! i) = Inr (U ! ((k # ks) ! i)))"
  have s1: "kept (next_addr h) h ?h1" by (rule kept_alloc[OF order_refl])
  have n1: "next_addr ?h1 = Suc ?c" by (rule alloc_facts(2))
  have r1: "r < next_addr ?h1" using Cons.prems(1) n1 by simp
  have g1: "h_get2 ?h1 r = Inr U" using Cons.prems by (simp add: get2_alloc_old)
  have c1: "h_get1 ?h1 ?c = Inr (U ! k)" by (rule get1_alloc_new)
  have step: "post (h_then (h_copy_rows ?h1 r ks) (\<lambda>h2 cs. (h2, Inr (?c # cs))))
                (kept (next_addr h) h) ?Q"
  proof (rule post_then[OF Cons.IH[OF r1 g1]])
    fix h2 cs
    assume k2: "kept (next_addr ?h1) ?h1 h2"
      and q: "length cs = length ks \<and> distinct cs \<and>
              (\<forall>c\<in>set cs. next_addr ?h1 \<le> c \<and> c < next_addr h2) \<and>
              (\<forall>i<length ks. h_get1 h2 (cs ! i) = Inr (U ! (ks ! i)))"
    from q have q1: "length cs = length ks" and q2: "distinct cs"
      and q3: "\<forall>c\<in>set cs. next_addr ?h1 \<le> c \<and> c < next_addr h2"
      and q4: "\<forall>i<length ks. h_get1 h2 (cs ! i) = Inr (U ! (ks ! i))"
      by blast+
    have k0: "kept (next_addr h) h h2"
      by (rule kept_trans[OF s1 kept_mono[OF k2]]) (simp add: n1)
    have c2: "h_get1 h2 ?c = Inr (U ! k)"
      using kept_get1[OF k2, of ?c] c1 n1 by simp
    have lt: "?c < next_addr h2" using kept_next[OF k2] n1 by simp
    have notin: "?c \<notin> set cs"
    proof
      assume "?c \<in> set cs"
      then have "next_addr ?h1 \<le> ?c" using q3 by blast
      then show False using n1 by simp
    qed
    have fresh: "\<forall>c\<in>set cs. next_addr h \<le> c \<and> c < next_addr h2"
    proof
      fix c assume "c \<in> set cs"
      then have "next_addr ?h1 \<le> c \<and> c < next_addr h2" using q3 by blast
      then show "next_addr h \<le> c \<and> c < next_addr h2" using n1 by simp
    qed
    have content: "\<forall>i<length (k # ks). h_get1 h2 ((?c # cs) ! i) = Inr (U ! ((k # ks) ! i))"
    proof (intro allI impI)
      fix i assume i: "i < length (k # ks)"
      show "h_get1 h2 ((?c # cs) ! i) = Inr (U ! ((k # ks) ! i))"
      proof (cases i)
        case 0
        then show ?thesis using c2 by simp
      next
        case (Suc j)
        then have "j < length ks" using i by simp
        then show ?thesis using q4 Suc by simp
      qed
    qed
    show "post (h2, Inr (?c # cs)) (kept (next_addr h) h) ?Q"
    proof (rule postI)
      show "kept (next_addr h) h (fst (h2, Inr (?c # cs)))" using k0 by simp
    next
      fix x assume "snd (h2, Inr (?c # cs)) = Inr x"
      then have x: "x = ?c # cs" by simp
      show "?Q (fst (h2, Inr (?c # cs))) x"
        unfolding x fst_conv using q1 q2 notin fresh lt content by simp
    qed
  next
    fix h2 assume k2: "kept (next_addr ?h1) ?h1 h2"
    show "kept (next_addr h) h h2"
      by (rule kept_trans[OF s1 kept_mono[OF k2]]) (simp add: n1)
  qed
  have eq: "h_copy_rows h r (k # ks) =
      (if length U \<le> k then (h, Inl IndexError)
       else h_then (h_copy_rows ?h1 r ks) (\<lambda>h2 cs. (h2, Inr (?c # cs))))"
    by (simp only: h_copy_rows.simps Cons.prems(2) h_read_Inr case_alloc)
  show ?case
  proof (cases "length U \<le> k")
    case True
    have "post (h, Inl IndexError) (kept (next_addr h) h) ?Q"
      by (rule postI) (simp_all add: kept_refl)
    then show ?thesis by (simp only: eq True if_True)
  next
    case False
    then show ?thesis using step by (simp only: eq if_False)
  qed
qed

lemma gaptooth_unfold:
  "gaptooth_PI_vectorised rbf ops P x_array dx dt Dt K T_patch T params =
     (case stack P of
        Inl e \<Rightarrow> Inl e
      | Inr U \<Rightarrow>
          (case step_count ops T T_patch of
             Inl e \<Rightarrow> Inl e
           | Inr n1 \<Rightarrow>
               (case step_count ops T_patch Dt of
                  Inl e \<Rightarrow> Inl e
                | Inr n2 \<Rightarrow>
                    (case snd (patch_loop (nat n1) (nat n2) rbf ops U x_array dx dt Dt K params) of
                       Inl e \<Rightarrow> Inl e
                     | Inr U' \<Rightarrow> Inr (map (\<lambda>k. U' ! k) [0..<n_teeth_of U])))))"
proof (cases "stack P")
  case (Inl e)
  then show ?thesis by (simp add: gaptooth_PI_vectorised_def gaptooth_PI_logged_def)
next
  case U: (Inr U)
  show ?thesis
  proof (cases "step_count ops T T_patch")
    case (Inl e)
    then show ?thesis
      by (simp add: gaptooth_PI_vectorised_def gaptooth_PI_logged_def U)
  next
    case n1: (Inr n1)
    show ?thesis
    proof (cases "step_count ops T_patch Dt")
      case (Inl e)
      then show ?thesis
        by (simp add: gaptooth_PI_vectorised_def gaptooth_PI_logged_def U n1)
    next
      case n2: (Inr n2)
      obtain calls res where
        pl: "patch_loop (nat n1) (nat n2) rbf ops U x_array dx dt Dt K params = (calls, res)"
        by (cases "patch_loop (nat n1) (nat n2) rbf ops U x_array dx dt Dt K params")
      show ?thesis
        by (cases res) (simp_all add: gaptooth_PI_vectorised_def gaptooth_PI_logged_def U n1 n2 pl)
    qed
  qed
qed

lemma post_gaptooth_state:
  assumes "n0 \<le> next_addr h"
  shows "post (h_gaptooth_state rbf ops h refs x_array dx dt Dt K T_patch T params) (kept n0 h)
           (\<lambda>h' rn. \<exists>P U'. h_get1_all h refs = Inr P \<and> fst rn < next_addr h' \<and>
              h_get2 h' (fst rn) = Inr U' \<and>
              gaptooth_PI_vectorised rbf ops P x_array dx dt Dt K T_patch T params =
                Inr (map (\<lambda>k. U' ! k) [0..<snd rn]))"
  unfolding h_gaptooth_state_def
proof (rule post_then_full[OF post_stack_value[OF assms] assms])
  fix h1 r
  assume "\<exists>P. h_get1_all h refs = Inr P \<and> holds h1 r (stack P)"
  then obtain P U where P: "h_get1_all h refs = Inr P" and U: "stack P = Inr U"
    and r: "r < next_addr h1" and g: "h_get2 h1 r = Inr U"
    by (auto simp: holds_def)
  let ?Q = "\<lambda>h' rn. \<exists>P U'. h_get1_all h refs = Inr P \<and> fst rn < next_addr h' \<and>
              h_get2 h' (fst rn) = Inr U' \<and>
              gaptooth_PI_vectorised rbf ops P x_array dx dt Dt K T_patch T params =
                Inr (map (\<lambda>k. U' ! k) [0..<snd rn])"
  show "post (h_read h1 (h_get2 h1 r) (\<lambda>U.
          h_read h1 (step_count ops T T_patch) (\<lambda>n_patch_steps.
          h_read h1 (step_count ops T_patch Dt) (\<lambda>n_PI_steps.
          h_then (h_patch_loop (nat n_patch_steps) (nat n_PI_steps) rbf ops h1 r x_array
                    dx dt Dt K params) (\<lambda>h2 r'. (h2, Inr (r', n_teeth_of U)))))))
        (kept (next_addr h1) h1) ?Q"
    unfolding g h_read_Inr
  proof (intro post_read kept_refl)
    fix n1 n2
    assume c1: "step_count ops T T_patch = Inr n1" and c2: "step_count ops T_patch Dt = Inr n2"
    show "post (h_then (h_patch_loop (nat n1) (nat n2) rbf ops h1 r x_array dx dt Dt K params)
                 (\<lambda>h2 r'. (h2, Inr (r', n_teeth_of U))))
            (kept (next_addr h1) h1) ?Q"
    proof (rule post_then[OF post_patch_loop_value[OF order_refl r g]])
      fix h2 r'
      assume k: "kept (next_addr h1) h1 h2"
        and "holds h2 r' (snd (patch_loop (nat n1) (nat n2) rbf ops U x_array dx dt Dt K params))"
      then obtain U' where
        U': "snd (patch_loop (nat n1) (nat n2) rbf ops U x_array dx dt Dt K params) = Inr U'"
        "r' < next_addr h2" "h_get2 h2 r' = Inr U'"
        by (auto simp: holds_def)
      have "gaptooth_PI_vectorised rbf ops P x_array dx dt Dt K T_patch T params =
              Inr (map (\<lambda>k. U' ! k) [0..<n_teeth_of U])"
        by (simp add: gaptooth_unfold U c1 c2 U'(1))
      then show "post (h2, Inr (r', n_teeth_of U)) (kept (next_addr h1) h1) ?Q"
        using k P U'(2,3) by (auto simp: post_def)
    qed simp
  qed
qed

lemma get1_all_kept:
  "kept n0 h h' \<Longrightarrow> \<forall>r\<in>set refs. r < n0 \<Longrightarrow> h_get1_all h' refs = h_get1_all h refs"
proof (induction refs)
  case Nil
  show ?case by simp
next
  case (Cons a refs)
  have a: "h_get1 h' a = h_get1 h a" using Cons.prems by (simp add: kept_get1)
  have r: "h_get1_all h' refs = h_get1_all h refs" using Cons.IH Cons.prems by simp
  show ?case by (simp only: h_get1_all.simps a r)
qed

text \<open>
  Claim C10. \<open>u0_patch\<close> is the list of the addresses of the caller's arrays in a
  store \<open>h\<close> in which the addresses from \<open>next_addr h\<close> on are free, and the call
  ends in the store \<open>h'\<close>. Whether it returns or raises, every object that was in the
  store before the call is unchanged. When it returns the list \<open>out\<close>: the caller's
  arrays read as before; the addresses in \<open>out\<close> are distinct, none of them was in use
  before the call, none is among \<open>u0_patch\<close>, and none was in use when the loops had
  ended and the copying began, where the state \<open>U\<close> of the driver was at an address
  \<open>r\<close> in use; so a returned array is neither an input nor the state nor any array
  built on the way. The arrays at \<open>out\<close> hold the rows that
  \<^verbatim>\<open>gaptooth_PI_vectorised\<close>, as a function of values, returns on the contents of the
  caller's arrays.
\<close>

theorem driver_frame:
  assumes run: "h_gaptooth_PI_vectorised rbf ops h u0_patch x_array dx dt Dt K T_patch T params =
                  (h', result)"
    and ok: "heap_ok h"
  shows "(\<forall>a<next_addr h. objs h' a = objs h a) \<and>
         (\<forall>out. result = Inr out \<longrightarrow>
            h_get1_all h' u0_patch = h_get1_all h u0_patch \<and>
            distinct out \<and>
            (\<forall>c\<in>set out. next_addr h \<le> c \<and> c \<notin> set u0_patch) \<and>
            (\<exists>h1 r n. h_gaptooth_state rbf ops h u0_patch x_array dx dt Dt K T_patch T params =
                        (h1, Inr (r, n)) \<and>
                      r < next_addr h1 \<and> r \<notin> set out \<and>
                      (\<forall>c\<in>set out. next_addr h1 \<le> c)) \<and>
            (\<exists>P res. h_get1_all h u0_patch = Inr P \<and>
                     gaptooth_PI_vectorised rbf ops P x_array dx dt Dt K T_patch T params =
                       Inr res \<and>
                     map (h_get1 h') out = map Inr res))"
proof -
  let ?st = "h_gaptooth_state rbf ops h u0_patch x_array dx dt Dt K T_patch T params"
  obtain h1 sres where st: "?st = (h1, sres)" by (cases ?st)
  have pst: "post (h1, sres) (kept (next_addr h) h)
           (\<lambda>h' rn. \<exists>P U'. h_get1_all h u0_patch = Inr P \<and> fst rn < next_addr h' \<and>
              h_get2 h' (fst rn) = Inr U' \<and>
              gaptooth_PI_vectorised rbf ops P x_array dx dt Dt K T_patch T params =
                Inr (map (\<lambda>k. U' ! k) [0..<snd rn]))"
    using post_gaptooth_state[OF order_refl, of rbf ops h u0_patch x_array dx dt Dt K T_patch T
        params] unfolding st .
  have k1: "kept (next_addr h) h h1" using pst by (simp add: post_def)
  have le1: "next_addr h \<le> next_addr h1" by (rule kept_next[OF k1 order_refl])
  show ?thesis
  proof (cases sres)
    case (Inl e)
    have "h_gaptooth_PI_vectorised rbf ops h u0_patch x_array dx dt Dt K T_patch T params =
            (h1, Inl e)"
      by (simp add: h_gaptooth_PI_vectorised_def st Inl h_then_def)
    then have "h' = h1" "result = Inl e" using run by simp_all
    then show ?thesis using k1 by (simp add: kept_def)
  next
    case (Inr rn)
    obtain r n where rn: "rn = (r, n)" by (cases rn)
    from pst obtain P U' where
      P: "h_get1_all h u0_patch = Inr P" and r: "r < next_addr h1" and
      g: "h_get2 h1 r = Inr U'" and
      pure: "gaptooth_PI_vectorised rbf ops P x_array dx dt Dt K T_patch T params =
               Inr (map (\<lambda>k. U' ! k) [0..<n])"
      by (auto simp: post_def Inr rn)
    have cp: "h_copy_rows h1 r [0..<n] = (h', result)"
      using run by (simp add: h_gaptooth_PI_vectorised_def st Inr rn h_then_def)
    note pc = post_copy_rows[OF r g, of "[0..<n]", unfolded cp]
    have k2: "kept (next_addr h1) h1 h'" using pc by (simp add: post_def)
    have k: "kept (next_addr h) h h'"
      by (rule kept_trans[OF k1 kept_mono[OF k2 le1]])
    have frame: "\<forall>a<next_addr h. objs h' a = objs h a" using k by (simp add: kept_def)
    have refs: "\<forall>a\<in>set u0_patch. a < next_addr h"
      using get1_all_allocated[OF P ok] by blast
    have inputs: "h_get1_all h' u0_patch = h_get1_all h u0_patch"
      by (rule get1_all_kept[OF k refs])
    have "h_get1_all h' u0_patch = h_get1_all h u0_patch \<and>
            distinct out \<and>
            (\<forall>c\<in>set out. next_addr h \<le> c \<and> c \<notin> set u0_patch) \<and>
            (\<exists>h1 r n. ?st = (h1, Inr (r, n)) \<and>
                      r < next_addr h1 \<and> r \<notin> set out \<and>
                      (\<forall>c\<in>set out. next_addr h1 \<le> c)) \<and>
            (\<exists>P res. h_get1_all h u0_patch = Inr P \<and>
                     gaptooth_PI_vectorised rbf ops P x_array dx dt Dt K T_patch T params =
                       Inr res \<and>
                     map (h_get1 h') out = map Inr res)"
      if out: "result = Inr out" for out
    proof -
      from pc out have
        len: "length out = n" and d: "distinct out" and
        fresh: "\<forall>c\<in>set out. next_addr h1 \<le> c \<and> c < next_addr h'" and
        rows: "\<forall>i<n. h_get1 h' (out ! i) = Inr (U' ! ([0..<n] ! i))"
        by (simp_all add: post_def)
      have a: "\<forall>c\<in>set out. next_addr h \<le> c \<and> c \<notin> set u0_patch"
      proof
        fix c assume c: "c \<in> set out"
        then have "next_addr h1 \<le> c" using fresh by blast
        then have 1: "next_addr h \<le> c" using le1 by simp
        have "c \<notin> set u0_patch"
        proof
          assume "c \<in> set u0_patch"
          then have "c < next_addr h" using refs by blast
          then show False using 1 by simp
        qed
        then show "next_addr h \<le> c \<and> c \<notin> set u0_patch" using 1 by simp
      qed
      have nr: "r \<notin> set out"
      proof
        assume "r \<in> set out"
        then have "next_addr h1 \<le> r" using fresh by blast
        then show False using r by simp
      qed
      have b: "?st = (h1, Inr (r, n)) \<and> r < next_addr h1 \<and> r \<notin> set out \<and>
                 (\<forall>c\<in>set out. next_addr h1 \<le> c)"
        using st Inr rn r nr fresh by simp
      have c: "map (h_get1 h') out = map Inr (map (\<lambda>k. U' ! k) [0..<n])"
      proof (rule nth_equalityI)
        show "length (map (h_get1 h') out) = length (map Inr (map (\<lambda>k. U' ! k) [0..<n]))"
          by (simp add: len)
      next
        fix i assume "i < length (map (h_get1 h') out)"
        then have i: "i < n" by (simp add: len)
        then show "map (h_get1 h') out ! i = map Inr (map (\<lambda>k. U' ! k) [0..<n]) ! i"
          using rows len by simp
      qed
      show ?thesis using inputs d a b P pure c by blast
    qed
    then show ?thesis using frame by blast
  qed
qed

text \<open>
  A run on a store that holds the caller's patch at address 0 and one more array of the
  caller at address 1: one patch of three points, one patch step of one cycle. The call
  builds the stacked state at address 2, the arrays of the cycle at 3 to 6 and the
  returned row at 7.
\<close>

lemmas h_eval = h_read_def h_then_def h_alloc_def h_put_def h_get1_def h_get2_def

lemmas h_bcs_eval = h_enforce_bcs_def n_teeth_of_def n_micro_of_def set2_def Let_def

lemma h_stack_123:
  "h_stack \<lparr> objs = [0 \<mapsto> Arr1 [1, 2, 3::real], Suc 0 \<mapsto> Arr1 [0, 1, 2]], next_addr = 2 \<rparr> [0] =
   (\<lparr> objs = [0 \<mapsto> Arr1 [1, 2, 3], Suc 0 \<mapsto> Arr1 [0, 1, 2], 2 \<mapsto> Arr2 [[1, 2, 3]]],
      next_addr = 3 \<rparr>, Inr 2)"
  by (simp add: h_stack_def h_eval stack_def)

lemma h_euler_step_123:
  "h_euler_step real_ops
     \<lparr> objs = [0 \<mapsto> Arr1 [1, 2, 3], Suc 0 \<mapsto> Arr1 [0, 1, 2], 2 \<mapsto> Arr2 [[1, 2, 3]],
              3 \<mapsto> Arr2 [[1, 2, 3]]],
       next_addr = 4 \<rparr> 2 1 1 [0] [0] (Map.empty(''lambda'' \<mapsto> 0)) =
   (\<lparr> objs = [0 \<mapsto> Arr1 [1, 2, 3], Suc 0 \<mapsto> Arr1 [0, 1, 2], 2 \<mapsto> Arr2 [[1, 2, 3]],
              3 \<mapsto> Arr2 [[1, 2, 3]], 4 \<mapsto> Arr2 [[0, 2, 0]]], next_addr = 5 \<rparr>, Inr 4)"
  by (simp add: h_euler_step_def h_eval rhs_123 arr_add_def scal_mul_def h_bcs_eval)

lemma h_cycle_123:
  "h_projective_microcycle real_ops
     \<lparr> objs = [0 \<mapsto> Arr1 [1, 2, 3], Suc 0 \<mapsto> Arr1 [0, 1, 2], 2 \<mapsto> Arr2 [[1, 2, 3]]],
       next_addr = 3 \<rparr>
     2 1 1 1 1 [0] [0] (Map.empty(''lambda'' \<mapsto> 0)) =
   (\<lparr> objs = [0 \<mapsto> Arr1 [1, 2, 3], Suc 0 \<mapsto> Arr1 [0, 1, 2], 2 \<mapsto> Arr2 [[1, 2, 3]],
              3 \<mapsto> Arr2 [[1, 2, 3]], 4 \<mapsto> Arr2 [[0, 2, 0]],
              5 \<mapsto> Arr2 [[- 1, 0, - 3]], 6 \<mapsto> Arr2 [[0, 2, 0]]],
      next_addr = 7 \<rparr>, Inr 6)"
  by (simp add: h_projective_microcycle_def h_eval h_euler_step_123 arr_sub_def arr_div_scal_def
      arr_add_def scal_mul_def h_bcs_eval)

lemma h_patch_loop_123:
  "h_patch_loop 1 1 (\<lambda>x_end u_end x. 0) real_ops
     \<lparr> objs = [0 \<mapsto> Arr1 [1, 2, 3], Suc 0 \<mapsto> Arr1 [0, 1, 2], 2 \<mapsto> Arr2 [[1, 2, 3]]],
       next_addr = 3 \<rparr>
     2 [[0, 1, 2]] 1 1 1 1 (Map.empty(''lambda'' \<mapsto> 0)) =
   (\<lparr> objs = [0 \<mapsto> Arr1 [1, 2, 3], Suc 0 \<mapsto> Arr1 [0, 1, 2], 2 \<mapsto> Arr2 [[1, 2, 3]],
              3 \<mapsto> Arr2 [[1, 2, 3]], 4 \<mapsto> Arr2 [[0, 2, 0]],
              5 \<mapsto> Arr2 [[- 1, 0, - 3]], 6 \<mapsto> Arr2 [[0, 2, 0]]],
      next_addr = 7 \<rparr>, Inr 6)"
  by (simp add: h_eval slopes_123 h_cycle_123)

lemma h_gaptooth_state_123:
  "h_gaptooth_state (\<lambda>x_end u_end x. 0) real_ops
     \<lparr> objs = [0 \<mapsto> Arr1 [1, 2, 3], Suc 0 \<mapsto> Arr1 [0, 1, 2]], next_addr = 2 \<rparr>
     [0] [[0, 1, 2]] 1 1 1 1 1 1 (Map.empty(''lambda'' \<mapsto> 0)) =
   (\<lparr> objs = [0 \<mapsto> Arr1 [1, 2, 3], Suc 0 \<mapsto> Arr1 [0, 1, 2], 2 \<mapsto> Arr2 [[1, 2, 3]],
              3 \<mapsto> Arr2 [[1, 2, 3]], 4 \<mapsto> Arr2 [[0, 2, 0]],
              5 \<mapsto> Arr2 [[- 1, 0, - 3]], 6 \<mapsto> Arr2 [[0, 2, 0]]],
      next_addr = 7 \<rparr>, Inr (6, 1))"
  using h_patch_loop_123
  by (simp add: h_gaptooth_state_def h_stack_123 h_eval step_count_1 n_teeth_of_def)

lemma h_gaptooth_123:
  "h_gaptooth_PI_vectorised (\<lambda>x_end u_end x. 0) real_ops
     \<lparr> objs = [0 \<mapsto> Arr1 [1, 2, 3], Suc 0 \<mapsto> Arr1 [0, 1, 2]], next_addr = 2 \<rparr>
     [0] [[0, 1, 2]] 1 1 1 1 1 1 (Map.empty(''lambda'' \<mapsto> 0)) =
   (\<lparr> objs = [0 \<mapsto> Arr1 [1, 2, 3], Suc 0 \<mapsto> Arr1 [0, 1, 2], 2 \<mapsto> Arr2 [[1, 2, 3]],
              3 \<mapsto> Arr2 [[1, 2, 3]], 4 \<mapsto> Arr2 [[0, 2, 0]],
              5 \<mapsto> Arr2 [[- 1, 0, - 3]], 6 \<mapsto> Arr2 [[0, 2, 0]], 7 \<mapsto> Arr1 [0, 2, 0]],
      next_addr = 8 \<rparr>, Inr [7])"
  by (simp add: h_gaptooth_PI_vectorised_def h_gaptooth_state_123 h_eval)

theorem driver_frame_witness:
  "heap_ok \<lparr> objs = [0 \<mapsto> Arr1 [1, 2, 3::real], Suc 0 \<mapsto> Arr1 [0, 1, 2]], next_addr = 2 \<rparr> \<and>
   h_gaptooth_PI_vectorised (\<lambda>x_end u_end x. 0) real_ops
     \<lparr> objs = [0 \<mapsto> Arr1 [1, 2, 3], Suc 0 \<mapsto> Arr1 [0, 1, 2]], next_addr = 2 \<rparr>
     [0] [[0, 1, 2]] 1 1 1 1 1 1 (Map.empty(''lambda'' \<mapsto> 0)) =
   (\<lparr> objs = [0 \<mapsto> Arr1 [1, 2, 3], Suc 0 \<mapsto> Arr1 [0, 1, 2], 2 \<mapsto> Arr2 [[1, 2, 3]],
              3 \<mapsto> Arr2 [[1, 2, 3]], 4 \<mapsto> Arr2 [[0, 2, 0]],
              5 \<mapsto> Arr2 [[- 1, 0, - 3]], 6 \<mapsto> Arr2 [[0, 2, 0]], 7 \<mapsto> Arr1 [0, 2, 0]],
      next_addr = 8 \<rparr>, Inr [7]) \<and>
   distinct [7::nat] \<and> (2::nat) \<le> 7 \<and> (7::nat) \<notin> set [0] \<and> (6::nat) < 7 \<and>
   gaptooth_PI_vectorised (\<lambda>x_end u_end x. 0) real_ops [[1, 2, 3]] [[0, 1, 2]] 1 1 1 1 1 1
     (Map.empty(''lambda'' \<mapsto> 0)) = Inr [[0, 2, 0]] \<and>
   map (h_get1 \<lparr> objs = [0 \<mapsto> Arr1 [1, 2, 3], Suc 0 \<mapsto> Arr1 [0, 1, 2],
              2 \<mapsto> Arr2 [[1, 2, 3]], 3 \<mapsto> Arr2 [[1, 2, 3]], 4 \<mapsto> Arr2 [[0, 2, 0]],
              5 \<mapsto> Arr2 [[- 1, 0, - 3]], 6 \<mapsto> Arr2 [[0, 2, 0]], 7 \<mapsto> Arr1 [0, 2, 0]],
      next_addr = 8 \<rparr>) [7] = map Inr [[0, 2, 0::real]]"
proof -
  let ?h = "\<lparr> objs = [0 \<mapsto> Arr1 [1, 2, 3::real], Suc 0 \<mapsto> Arr1 [0, 1, 2]], next_addr = 2 \<rparr>"
  let ?h' = "\<lparr> objs = [0 \<mapsto> Arr1 [1, 2, 3::real], Suc 0 \<mapsto> Arr1 [0, 1, 2],
              2 \<mapsto> Arr2 [[1, 2, 3]], 3 \<mapsto> Arr2 [[1, 2, 3]], 4 \<mapsto> Arr2 [[0, 2, 0]],
              5 \<mapsto> Arr2 [[- 1, 0, - 3]], 6 \<mapsto> Arr2 [[0, 2, 0]], 7 \<mapsto> Arr1 [0, 2, 0]],
      next_addr = 8 \<rparr>"
  have ok: "heap_ok ?h" by (simp add: heap_ok_def)
  have P: "h_get1_all ?h [0] = Inr [[1, 2, 3]]" by (simp add: h_get1_def)
  note A = driver_frame[OF h_gaptooth_123 ok, THEN conjunct2, rule_format, OF refl]
  note d = A[THEN conjunct2, THEN conjunct1]
  note f = A[THEN conjunct2, THEN conjunct2, THEN conjunct1, rule_format, of 7]
  from A[THEN conjunct2, THEN conjunct2, THEN conjunct2, THEN conjunct2] obtain P res where
    p: "h_get1_all ?h [0] = Inr P"
       "gaptooth_PI_vectorised (\<lambda>x_end u_end x. 0) real_ops P [[0, 1, 2]] 1 1 1 1 1 1
          (Map.empty(''lambda'' \<mapsto> 0)) = Inr res"
       "map (h_get1 ?h') [7] = map Inr res"
    by (elim exE conjE) (rule that)
  have "Inr [[1, 2, 3::real]] = (Inr P :: error + real list list)" using p(1) unfolding P .
  then have P': "P = [[1, 2, 3]]" by simp
  have "Inr res = Inr [[0, 2, 0::real]]" using p(2) unfolding P' gaptooth_123 by simp
  then have res: "res = [[0, 2, 0]]" by simp
  have f': "(2::nat) \<le> 7 \<and> (7::nat) \<notin> set [0]" using f by simp
  have six: "(6::nat) < 7" by simp
  show ?thesis
    by (intro conjI ok h_gaptooth_123 d f'[THEN conjunct1] f'[THEN conjunct2] six gaptooth_123
        p(3)[unfolded res])
qed

end
